theory Spec2Isabelle
  imports Complex_Main
begin

section \<open>Characters and strings as Python has them\<close>

text \<open>
  A Python \<open>str\<close> is a sequence of code points. A \<^typ>\<open>char\<close> stands for the code
  point \<open>of_char c\<close>, so the strings of this development are the Python strings over the
  code points below 256. The predicates below are \<open>str.isspace\<close>, \<open>str.isdigit\<close>,
  \<open>str.isalnum\<close> and \<open>str.lower\<close> on that range.
\<close>

definition py_isspace :: "char \<Rightarrow> bool" where
  "py_isspace c =
     (let n = (of_char c :: nat)
      in (9 \<le> n \<and> n \<le> 13) \<or> (28 \<le> n \<and> n \<le> 32) \<or> n = 133 \<or> n = 160)"

definition py_isdecimal :: "char \<Rightarrow> bool" where
  "py_isdecimal c = (let n = (of_char c :: nat) in 48 \<le> n \<and> n \<le> 57)"

definition py_isdigit :: "char \<Rightarrow> bool" where
  "py_isdigit c =
     (let n = (of_char c :: nat)
      in (48 \<le> n \<and> n \<le> 57) \<or> n = 178 \<or> n = 179 \<or> n = 185)"

definition py_isalnum :: "char \<Rightarrow> bool" where
  "py_isalnum c =
     (let n = (of_char c :: nat)
      in (48 \<le> n \<and> n \<le> 57) \<or> (65 \<le> n \<and> n \<le> 90) \<or> (97 \<le> n \<and> n \<le> 122)
         \<or> n = 170 \<or> n = 178 \<or> n = 179 \<or> n = 181 \<or> n = 185 \<or> n = 186
         \<or> (188 \<le> n \<and> n \<le> 190) \<or> (192 \<le> n \<and> n \<le> 214)
         \<or> (216 \<le> n \<and> n \<le> 246) \<or> (248 \<le> n \<and> n \<le> 255))"

definition py_lower_char :: "char \<Rightarrow> char" where
  "py_lower_char c =
     (let n = (of_char c :: nat)
      in if (65 \<le> n \<and> n \<le> 90) \<or> (192 \<le> n \<and> n \<le> 214) \<or> (216 \<le> n \<and> n \<le> 222)
         then char_of (n + 32) else c)"

definition py_lower :: "string \<Rightarrow> string" where
  "py_lower s = map py_lower_char s"

text \<open>\<open>s.split()\<close>: the maximal runs of non-whitespace characters of \<open>s\<close>, in order.\<close>

fun split_ws :: "string \<Rightarrow> string \<Rightarrow> string list" where
  "split_ws cur [] = (if cur = [] then [] else [cur])"
| "split_ws cur (c # cs) =
     (if py_isspace c then (if cur = [] then split_ws [] cs else cur # split_ws [] cs)
      else split_ws (cur @ [c]) cs)"

definition py_split :: "string \<Rightarrow> string list" where
  "py_split s = split_ws [] s"

text \<open>\<open>sep.join(xs)\<close>.\<close>

fun py_join :: "string \<Rightarrow> string list \<Rightarrow> string" where
  "py_join sep [] = []"
| "py_join sep [x] = x"
| "py_join sep (x # y # ys) = x @ sep @ py_join sep (y # ys)"

section \<open>The preprint matcher (services/arxiv\_matcher.py)\<close>

datatype error = HTTPError | ShapeError

definition normalize_title :: "string \<Rightarrow> string" where
  "normalize_title s =
     py_join '' '' (py_split (map py_lower_char (filter (\<lambda>ch. py_isalnum ch \<or> py_isspace ch) s)))"

text \<open>
  \<open>SequenceMatcher(None, a, b).ratio()\<close> belongs to Python's library, not to the
  repository: it is the parameter \<open>ratio\<close>. A float is modelled by the rational number
  it denotes, which is exact for the comparisons the matcher makes.
\<close>

definition similarity :: "(string \<Rightarrow> string \<Rightarrow> rat) \<Rightarrow> string \<Rightarrow> string \<Rightarrow> rat" where
  "similarity ratio a b = ratio (normalize_title a) (normalize_title b)"

type_synonym match_result = "string option \<times> string option \<times> bool \<times> rat"

text \<open>The \<open>for aid, atitle in candidates\<close> loop, \<open>best\<close> being its loop variable.\<close>

fun scan_candidates ::
  "(string \<Rightarrow> string \<Rightarrow> rat) \<Rightarrow> string \<Rightarrow> string \<Rightarrow> match_result \<Rightarrow> (string \<times> string) list
     \<Rightarrow> match_result" where
  "scan_candidates ratio title norm_title best [] = best"
| "scan_candidates ratio title norm_title best ((aid, atitle) # cs) =
     (if normalize_title atitle = norm_title then (Some aid, Some atitle, True, 1)
      else let s = similarity ratio title atitle
           in scan_candidates ratio title norm_title
                (if s > snd (snd (snd best)) then (Some aid, Some atitle, False, s) else best) cs)"

text \<open>
  \<open>find_arxiv_match\<close>: \<open>query\<close> is the awaited \<open>query_arxiv_by_title\<close>, whose answer
  comes from the network; a transport error propagates.
\<close>

definition find_arxiv_match ::
  "(string \<Rightarrow> string \<Rightarrow> rat) \<Rightarrow> (string \<Rightarrow> error + (string \<times> string) list) \<Rightarrow> string
     \<Rightarrow> error + match_result" where
  "find_arxiv_match ratio query title =
     (case query title of
        Inl e \<Rightarrow> Inl e
      | Inr candidates \<Rightarrow>
          if candidates = [] then Inr (None, None, False, 0)
          else Inr (scan_candidates ratio title (normalize_title title) (None, None, False, 0)
                      candidates))"

section \<open>The submission fetcher (app/services/openreview\_client.py)\<close>

text \<open>
  The query parameters of one \<open>GET /notes\<close>, and the answer to it: a transport or
  status failure, or a JSON object whose entries \<open>notes\<close> and \<open>items\<close> are each absent
  or a list of records. The remote source is the parameter \<open>client\<close>: \<open>client k rq\<close>
  answers the request \<open>rq\<close> when \<open>k\<close> requests were sent before it.
\<close>

record request =
  invitation :: string
  details :: string
  limit :: nat
  offset :: nat

datatype 'a response = Http_failure | Body "'a list option" "'a list option"

text \<open>\<open>x or d\<close> for an entry \<open>x\<close> of the body that is absent or a list.\<close>

fun or_list :: "'a list option \<Rightarrow> 'a list \<Rightarrow> 'a list" where
  "or_list None d = d"
| "or_list (Some xs) d = (if xs = [] then d else xs)"

text \<open>\<open>raise_for_status()\<close>, then \<open>data.get("notes") or data.get("items") or []\<close>.\<close>

fun response_notes :: "'a response \<Rightarrow> error + 'a list" where
  "response_notes Http_failure = Inl HTTPError"
| "response_notes (Body notes items) = Inr (or_list notes (or_list items []))"

text \<open>
  The \<open>while True\<close> loop of \<open>fetch_notes\<close>. It need not end (a source may answer
  every request with a full page), so it is a partial function: \<open>None\<close> is the run that
  never returns. The result carries the requests sent, in order, next to the records
  collected or the error raised.
\<close>

definition page_size :: nat where
  "page_size = 200"

partial_function (option) fetch_loop ::
  "(nat \<Rightarrow> request \<Rightarrow> 'a response) \<Rightarrow> string \<Rightarrow> nat \<Rightarrow> 'a list \<Rightarrow> request list
     \<Rightarrow> (request list \<times> (error + 'a list)) option" where
  "fetch_loop client invite off collected sent =
     (let params = \<lparr>invitation = invite, details = ''directReplies'', limit = page_size, offset = off\<rparr>
      in case response_notes (client (length sent) params) of
           Inl e \<Rightarrow> Some (sent @ [params], Inl e)
         | Inr notes \<Rightarrow>
             if notes = [] then Some (sent @ [params], Inr collected)
             else if length notes < page_size then Some (sent @ [params], Inr (collected @ notes))
             else fetch_loop client invite (off + length notes) (collected @ notes) (sent @ [params]))"

definition fetch_notes ::
  "(nat \<Rightarrow> request \<Rightarrow> 'a response) \<Rightarrow> string \<Rightarrow> (request list \<times> (error + 'a list)) option" where
  "fetch_notes client invite = fetch_loop client invite 0 [] []"

text \<open>The request for page \<open>k\<close> of a source that holds the pages \<open>pages\<close>.\<close>

definition page_request :: "string \<Rightarrow> 'a list list \<Rightarrow> nat \<Rightarrow> request" where
  "page_request invite pages k =
     \<lparr>invitation = invite, details = ''directReplies'', limit = 200,
      offset = length (concat (take k pages))\<rparr>"

section \<open>The submission normalizer (app/services/openreview\_client.py)\<close>

text \<open>
  A raw record is a JSON value as \<open>resp.json()\<close> builds it: \<open>None\<close>, a \<open>bool\<close>, an
  \<open>int\<close>, a \<open>float\<close>, a \<open>str\<close>, a \<open>list\<close> or a \<open>dict\<close> with string keys, whose
  entries are kept in order. \<open>JFloat r\<close> is the finite float whose value is the rational
  \<open>r\<close>; the infinities and the NaN, which JSON proper does not have, are left out.
\<close>

datatype json =
    JNull
  | JBool bool
  | JInt int
  | JFloat rat
  | JStr string
  | JList "json list"
  | JDict "(string \<times> json) list"

text \<open>Python's truth value of a JSON value, and \<open>a or b\<close>.\<close>

fun truthy :: "json \<Rightarrow> bool" where
  "truthy JNull = False"
| "truthy (JBool b) = b"
| "truthy (JInt n) = (n \<noteq> 0)"
| "truthy (JFloat r) = (r \<noteq> 0)"
| "truthy (JStr s) = (s \<noteq> [])"
| "truthy (JList xs) = (xs \<noteq> [])"
| "truthy (JDict kvs) = (kvs \<noteq> [])"

definition py_or :: "json \<Rightarrow> json \<Rightarrow> json" where
  "py_or a b = (if truthy a then a else b)"

text \<open>\<open>d.get(k)\<close> and \<open>d.get(k, default)\<close>.\<close>

definition dict_get :: "(string \<times> json) list \<Rightarrow> string \<Rightarrow> json" where
  "dict_get d k = (case map_of d k of None \<Rightarrow> JNull | Some v \<Rightarrow> v)"

definition dict_get_default :: "(string \<times> json) list \<Rightarrow> string \<Rightarrow> json \<Rightarrow> json" where
  "dict_get_default d k dflt = (case map_of d k of None \<Rightarrow> dflt | Some v \<Rightarrow> v)"

text \<open>
  \<open>str(v)\<close>: a string is its own string form. The string forms of the other values
  (numbers, \<open>None\<close>, and the \<open>repr\<close> of lists and dicts) belong to Python, and are the
  parameter \<open>repr\<close>.
\<close>

definition py_str :: "(json \<Rightarrow> string) \<Rightarrow> json \<Rightarrow> string" where
  "py_str repr v = (case v of JStr s \<Rightarrow> s | _ \<Rightarrow> repr v)"

text \<open>\<open>sub in s\<close> for two strings, \<open>s.strip()\<close> and \<open>s.split(c)\<close> for a character \<open>c\<close>.\<close>

fun starts_with :: "string \<Rightarrow> string \<Rightarrow> bool" where
  "starts_with [] s = True"
| "starts_with (p # ps) [] = False"
| "starts_with (p # ps) (c # cs) = (p = c \<and> starts_with ps cs)"

fun str_contains :: "string \<Rightarrow> string \<Rightarrow> bool" where
  "str_contains sub [] = (sub = [])"
| "str_contains sub (c # cs) = (starts_with sub (c # cs) \<or> str_contains sub cs)"

definition py_strip :: "string \<Rightarrow> string" where
  "py_strip s = rev (dropWhile py_isspace (rev (dropWhile py_isspace s)))"

fun split_on :: "char \<Rightarrow> string \<Rightarrow> string \<Rightarrow> string list" where
  "split_on c cur [] = [cur]"
| "split_on c cur (x # xs) = (if x = c then cur # split_on c [] xs else split_on c (cur @ [x]) xs)"

text \<open>
  Python's floats are binary doubles. Their arithmetic belongs to Python and to the
  machine, not to the repository, and is the parameter \<open>ops\<close>, over a type \<open>'f\<close> of
  floats: \<open>float_round ops q\<close> is the float nearest to the rational \<open>q\<close>, an infinity when
  \<open>q\<close> is beyond the range; \<open>float_finite ops\<close> tells the finite floats; \<open>float_sum ops\<close>
  is the built-in \<open>sum\<close> on a list of floats and \<open>float_div ops\<close> the division of two
  floats.
\<close>

record 'f float_ops =
  float_round :: "rat \<Rightarrow> 'f"
  float_finite :: "'f \<Rightarrow> bool"
  float_sum :: "'f list \<Rightarrow> 'f"
  float_div :: "'f \<Rightarrow> 'f \<Rightarrow> 'f"

text \<open>
  \<open>float(n)\<close> for an integer \<open>n\<close>: the nearest float, and an \<open>OverflowError\<close> (here
  \<open>None\<close>) when \<open>n\<close> is too large for a finite one.
\<close>

definition float_of_int :: "'f float_ops \<Rightarrow> int \<Rightarrow> 'f option" where
  "float_of_int ops n =
     (let x = float_round ops (of_int n) in if float_finite ops x then Some x else None)"

text \<open>
  \<open>float(buf)\<close> for a \<open>buf\<close> of digits and at most one point, as \<open>parse_rating\<close> builds
  it: the float nearest to the decimal value when every digit is an ASCII digit and
  there is at least one (an infinity when the value is beyond the range), and a
  \<open>ValueError\<close> (here \<open>None\<close>) otherwise, as on \<open>"."\<close> or on a superscript digit.
\<close>

definition digits_value :: "string \<Rightarrow> nat" where
  "digits_value ds = foldl (\<lambda>a c. 10 * a + (of_char c - 48)) 0 ds"

definition float_of_token :: "'f float_ops \<Rightarrow> string \<Rightarrow> 'f option" where
  "float_of_token ops buf =
     (let ip = takeWhile (\<lambda>c. c \<noteq> CHR ''.'') buf;
          fp = drop 1 (dropWhile (\<lambda>c. c \<noteq> CHR ''.'') buf)
      in if ip @ fp \<noteq> [] \<and> list_all py_isdecimal (ip @ fp)
         then Some (float_round ops
                      (of_nat (digits_value ip) + of_nat (digits_value fp) / 10 ^ length fp))
         else None)"

text \<open>The \<open>for ch in s\<close> loop of \<open>parse_rating\<close>, \<open>buf\<close> being its loop variable.\<close>

fun scan_rating :: "string \<Rightarrow> string \<Rightarrow> string" where
  "scan_rating buf [] = buf"
| "scan_rating buf (ch # s) =
     (if py_isdigit ch \<or> (ch = CHR ''.'' \<and> CHR ''.'' \<notin> set buf) then scan_rating (buf @ [ch]) s
      else if buf \<noteq> [] then buf
      else scan_rating buf s)"

text \<open>
  \<open>parse_rating\<close>. A boolean is an \<open>int\<close> to \<open>isinstance\<close>, and \<open>float\<close> of a float is
  that float. The \<open>except Exception\<close> turns the \<open>OverflowError\<close> of a large integer and
  the \<open>ValueError\<close> of a bad token into \<open>None\<close>.
\<close>

fun parse_rating :: "'f float_ops \<Rightarrow> (json \<Rightarrow> string) \<Rightarrow> json \<Rightarrow> 'f option" where
  "parse_rating ops repr JNull = None"
| "parse_rating ops repr (JBool b) = float_of_int ops (if b then 1 else 0)"
| "parse_rating ops repr (JInt n) = float_of_int ops n"
| "parse_rating ops repr (JFloat r) = Some (float_round ops r)"
| "parse_rating ops repr v =
     (let buf = scan_rating [] (py_str repr v)
      in if buf \<noteq> [] then float_of_token ops buf else None)"

fun extract_keywords_loop :: "(json \<Rightarrow> string) \<Rightarrow> (string \<times> json) list \<Rightarrow> string list \<Rightarrow> string list" where
  "extract_keywords_loop repr content [] = []"
| "extract_keywords_loop repr content (k # ks) =
     (case map_of content k of
        Some (JList value) \<Rightarrow> map (\<lambda>v. py_strip (py_str repr v)) value
      | Some (JStr value) \<Rightarrow>
          map py_strip
            (filter (\<lambda>token. py_strip token \<noteq> [])
               (split_on CHR '','' [] (map (\<lambda>c. if c = CHR '';'' then CHR '','' else c) value)))
      | _ \<Rightarrow> extract_keywords_loop repr content ks)"

definition extract_keywords :: "(json \<Rightarrow> string) \<Rightarrow> (string \<times> json) list \<Rightarrow> string list" where
  "extract_keywords repr content =
     extract_keywords_loop repr content
       [''keywords'', ''Keywords'', ''key_areas'', ''Key Areas'', ''Key Area(s)'']"

text \<open>
  The dataclass \<open>SubmissionSummary\<close>. Python does not enforce its annotations, and
  \<open>summarize\<close> copies \<open>forum\<close>, \<open>note\<close>, \<open>title\<close> and \<open>abstract\<close> from the raw record as
  they come, so the record is generic in their types: JSON values out of \<open>summarize\<close>,
  strings where the annotations hold; it is generic as well in the type of the floats
  of \<open>avg_rating\<close>. The fields \<open>note\<close> and \<open>keywords\<close> are \<open>note_id\<close> and \<open>keywords_list\<close> here.
\<close>

record ('s, 'a, 'f) submission_summary =
  forum :: 's
  note_id :: 's
  title :: 's
  abstract :: 'a
  authors :: string
  keywords_list :: "string list"
  decision :: "string option"
  avg_rating :: "'f option"
  num_reviews :: nat

text \<open>
  The parts of the body of the \<open>for reply in direct\<close> loop of \<open>summarize\<close>.
  \<open>invitation_has_decision\<close> is \<open>"Decision" in invitation\<close>, which Python answers on a
  string, a list or a dict and refuses with a \<open>TypeError\<close> on anything else;
  \<open>decision_value\<close> is \<open>dv\<close> after the unwrapping of a \<open>{value: ...}\<close> dict;
  \<open>rating_samples\<close> is what the inner loop over \<open>rcontent.items()\<close> appends.
\<close>

fun invitation_has_decision :: "json \<Rightarrow> error + bool" where
  "invitation_has_decision (JStr s) = Inr (str_contains ''Decision'' s)"
| "invitation_has_decision (JList xs) = Inr (JStr ''Decision'' \<in> set xs)"
| "invitation_has_decision (JDict d) = Inr (''Decision'' \<in> set (map fst d))"
| "invitation_has_decision v = Inl ShapeError"

definition decision_value :: "(string \<times> json) list \<Rightarrow> json" where
  "decision_value rcontent =
     (let dv = py_or (py_or (dict_get rcontent ''decision'') (dict_get rcontent ''Decision''))
                 (dict_get rcontent ''recommendation'')
      in case dv of
           JDict d \<Rightarrow> if ''value'' \<in> set (map fst d) then dict_get d ''value'' else dv
         | _ \<Rightarrow> dv)"

definition rating_samples ::
  "'f float_ops \<Rightarrow> (json \<Rightarrow> string) \<Rightarrow> (string \<times> json) list \<Rightarrow> 'f list" where
  "rating_samples ops repr rcontent =
     concat (map (\<lambda>(key, val).
                    if str_contains ''rating'' (py_lower key)
                    then (case parse_rating ops repr val of None \<Rightarrow> [] | Some pr \<Rightarrow> [pr])
                    else [])
                 rcontent)"

text \<open>
  One turn of the loop, on the loop variables \<open>decision\<close> and \<open>ratings\<close>. A reply that is
  not a dict, or whose content is a truthy value that is not a dict, raises.
\<close>

definition summarize_reply ::
  "'f float_ops \<Rightarrow> (json \<Rightarrow> string) \<Rightarrow> string option \<times> 'f list \<Rightarrow> json
     \<Rightarrow> error + (string option \<times> 'f list)" where
  "summarize_reply ops repr st reply =
     (case reply of
        JDict r \<Rightarrow>
          (case py_or (dict_get_default r ''content'' (JDict [])) (JDict []) of
             JDict rcontent \<Rightarrow>
               (case invitation_has_decision (dict_get_default r ''invitation'' (JStr [])) of
                  Inl e \<Rightarrow> Inl e
                | Inr in_invitation \<Rightarrow>
                    let decision' =
                          (if in_invitation \<or> list_ex (\<lambda>k. py_lower k = ''decision'') (map fst rcontent)
                           then (let dv = decision_value rcontent
                                 in if truthy dv then Some (py_str repr dv) else fst st)
                           else fst st)
                    in Inr (decision', snd st @ rating_samples ops repr rcontent))
           | _ \<Rightarrow> Inl ShapeError)
      | _ \<Rightarrow> Inl ShapeError)"

fun summarize_replies ::
  "'f float_ops \<Rightarrow> (json \<Rightarrow> string) \<Rightarrow> string option \<times> 'f list \<Rightarrow> json list
     \<Rightarrow> error + (string option \<times> 'f list)" where
  "summarize_replies ops repr st [] = Inr st"
| "summarize_replies ops repr st (reply # direct) =
     (case summarize_reply ops repr st reply of
        Inl e \<Rightarrow> Inl e
      | Inr st' \<Rightarrow> summarize_replies ops repr st' direct)"

text \<open>
  \<open>note.get("details", {}).get("directReplies", []) or []\<close>, as the list the loop runs
  over: a falsy value gives no reply, and a truthy value that is not a list makes the
  loop raise on its first turn.
\<close>

definition direct_replies :: "(string \<times> json) list \<Rightarrow> error + json list" where
  "direct_replies nt =
     (case dict_get_default nt ''details'' (JDict []) of
        JDict dts \<Rightarrow>
          (case py_or (dict_get_default dts ''directReplies'' (JList [])) (JList []) of
             JList direct \<Rightarrow> Inr direct
           | _ \<Rightarrow> Inl ShapeError)
      | _ \<Rightarrow> Inl ShapeError)"

text \<open>
  \<open>summarize\<close>. The average \<open>sum(ratings) / len(ratings)\<close> divides the float that \<open>sum\<close>
  gives by the float of the length.
\<close>

definition summarize ::
  "'f float_ops \<Rightarrow> (json \<Rightarrow> string) \<Rightarrow> json \<Rightarrow> error + (json, json, 'f) submission_summary" where
  "summarize ops repr raw =
     (case raw of
        JDict nt \<Rightarrow>
          (case py_or (dict_get_default nt ''content'' (JDict [])) (JDict []) of
             JDict content \<Rightarrow>
               let ttl = py_or (py_or (dict_get content ''title'') (dict_get content ''Title'')) (JStr []);
                   abs = py_or (dict_get content ''abstract'') (dict_get content ''Abstract'');
                   auths = py_or (py_or (dict_get content ''authors'') (dict_get content ''Authors''))
                               (JList []);
                   authors_str = (case auths of
                                    JList as \<Rightarrow> py_join ''; '' (map (py_str repr) as)
                                  | _ \<Rightarrow> py_str repr auths);
                   kws = extract_keywords repr content
               in (case direct_replies nt of
                     Inl e \<Rightarrow> Inl e
                   | Inr direct \<Rightarrow>
                       (case summarize_replies ops repr (None, []) direct of
                          Inl e \<Rightarrow> Inl e
                        | Inr (dec, ratings) \<Rightarrow>
                            Inr \<lparr>forum = py_or (dict_get nt ''forum'') (dict_get nt ''id''),
                                 note_id = dict_get nt ''id'',
                                 title = ttl,
                                 abstract = abs,
                                 authors = authors_str,
                                 keywords_list = kws,
                                 decision = dec,
                                 avg_rating =
                                   (if ratings \<noteq> []
                                    then Some (float_div ops (float_sum ops ratings)
                                                 (float_round ops (of_nat (length ratings))))
                                    else None),
                                 num_reviews = length ratings\<rparr>))
           | _ \<Rightarrow> Inl ShapeError)
      | _ \<Rightarrow> Inl ShapeError)"

text \<open>
  For the statements about the loop: the content dict a reply is read through, the test
  that guards the assignment to \<open>decision\<close>, and whether a reply assigns it.
\<close>

definition reply_content :: "json \<Rightarrow> (string \<times> json) list" where
  "reply_content reply =
     (case reply of
        JDict r \<Rightarrow> (case py_or (dict_get_default r ''content'' (JDict [])) (JDict []) of
                     JDict rcontent \<Rightarrow> rcontent
                   | _ \<Rightarrow> [])
      | _ \<Rightarrow> [])"

definition reply_invitation :: "json \<Rightarrow> json" where
  "reply_invitation reply =
     (case reply of JDict r \<Rightarrow> dict_get_default r ''invitation'' (JStr []) | _ \<Rightarrow> JStr [])"

definition decision_gate :: "json \<Rightarrow> bool" where
  "decision_gate reply =
     (invitation_has_decision (reply_invitation reply) = Inr True
      \<or> list_ex (\<lambda>k. py_lower k = ''decision'') (map fst (reply_content reply)))"

definition contributes_decision :: "json \<Rightarrow> bool" where
  "contributes_decision reply =
     (decision_gate reply \<and> truthy (decision_value (reply_content reply)))"

text \<open>
  For the examples: Python's string forms of \<open>None\<close>, of the booleans and of the
  integers (the string forms of floats, lists and dicts are not modelled, and the
  examples do not ask for them); and the float operations on the small integers, which
  doubles hold exactly and on which their sum and their division, when it comes out
  even, are exact.
\<close>

definition exact_ops :: "rat float_ops" where
  "exact_ops = \<lparr>float_round = (\<lambda>q. q), float_finite = (\<lambda>x. True), float_sum = sum_list,
                float_div = (\<lambda>a b. a / b)\<rparr>"

fun nat_digits :: "nat \<Rightarrow> string" where
  "nat_digits n =
     (if n < 10 then [char_of (48 + n)] else nat_digits (n div 10) @ [char_of (48 + n mod 10)])"

declare nat_digits.simps [simp del]

fun py_repr :: "json \<Rightarrow> string" where
  "py_repr JNull = ''None''"
| "py_repr (JBool b) = (if b then ''True'' else ''False'')"
| "py_repr (JInt n) = (if n < 0 then CHR ''-'' # nat_digits (nat (- n)) else nat_digits (nat n))"
| "py_repr v = []"

section \<open>The store and the ingestion orchestrator (app/models.py, app/ingest.py)\<close>

text \<open>
  The three tables, a row being a record and a table the list of its rows in insertion
  order. The primary keys \<open>id\<close> are \<open>v_id\<close>, \<open>p_id\<close> and \<open>m_id\<close>; the columns of a
  Paper and of an ArxivMatch that share their name with a field of the summary carry the
  prefix \<open>paper_\<close> or \<open>match_\<close>. An instant is a number of seconds. The store only
  keeps and copies the floats of its columns: a float there is the rational it denotes.
\<close>

record venue =
  v_id :: nat
  group_id :: string
  venue_name :: string
  year :: "int option"
  added_at :: int

record paper =
  p_id :: nat
  venue_id :: nat
  openreview_forum :: string
  openreview_note :: string
  paper_title :: string
  paper_abstract :: "string option"
  paper_authors :: string
  paper_keywords :: string
  paper_decision :: "string option"
  paper_avg_rating :: "rat option"
  paper_num_reviews :: nat
  last_refreshed :: int

record arxiv_match =
  m_id :: nat
  paper_id :: nat
  arxiv_id :: string
  match_title :: string
  exact :: bool
  score :: rat
  matched_at :: int

record store =
  venues :: "venue list"
  papers :: "paper list"
  arxiv_matches :: "arxiv_match list"

text \<open>The key an autoincrement column gives the next row: one more than the largest.\<close>

definition next_id :: "nat list \<Rightarrow> nat" where
  "next_id ids = Suc (fold max ids 0)"

text \<open>
  Lines 22 to 26: the Venue of the group, created and flushed when the store has none.
  \<open>db.scalar\<close> yields the first row of its query, and \<open>name or group_id.split("/")[0]\<close>
  is the text before the first slash when no name is given.
\<close>

definition ensure_venue ::
  "int \<Rightarrow> store \<Rightarrow> string \<Rightarrow> string option \<Rightarrow> int option \<Rightarrow> store \<times> venue" where
  "ensure_venue now db gid nm yr =
     (case find (\<lambda>v. group_id v = gid) (venues db) of
        Some v \<Rightarrow> (db, v)
      | None \<Rightarrow>
          let v = \<lparr>v_id = next_id (map v_id (venues db)), group_id = gid,
                   venue_name = (case nm of
                                   Some (c # cs) \<Rightarrow> c # cs
                                 | _ \<Rightarrow> takeWhile (\<lambda>c. c \<noteq> CHR ''/'') gid),
                   year = yr, added_at = now\<rparr>
          in (db\<lparr>venues := venues db @ [v]\<rparr>, v))"

text \<open>The assignments of lines 46 to 53 to a Paper found, and the row of lines 31 to 43.\<close>

definition overwrite_paper :: "int \<Rightarrow> (string, string option, rat) submission_summary \<Rightarrow> paper \<Rightarrow> paper" where
  "overwrite_paper now summary p =
     p\<lparr>paper_title := title summary,
       paper_abstract := abstract summary,
       paper_authors := authors summary,
       paper_keywords := py_join '', '' (keywords_list summary),
       paper_decision := decision summary,
       paper_avg_rating := avg_rating summary,
       paper_num_reviews := num_reviews summary,
       last_refreshed := now\<rparr>"

definition new_paper :: "int \<Rightarrow> nat \<Rightarrow> (string, string option, rat) submission_summary \<Rightarrow> paper" where
  "new_paper now vid summary =
     \<lparr>p_id = 0, venue_id = vid, openreview_forum = forum summary,
      openreview_note = note_id summary, paper_title = title summary,
      paper_abstract = abstract summary, paper_authors = authors summary,
      paper_keywords = py_join '', '' (keywords_list summary),
      paper_decision = decision summary, paper_avg_rating = avg_rating summary,
      paper_num_reviews = num_reviews summary, last_refreshed = now\<rparr>"

text \<open>\<open>update_first P f xs\<close> applies \<open>f\<close> to the first element of \<open>xs\<close> that satisfies \<open>P\<close>.\<close>

fun update_first :: "('a \<Rightarrow> bool) \<Rightarrow> ('a \<Rightarrow> 'a) \<Rightarrow> 'a list \<Rightarrow> 'a list" where
  "update_first P f [] = []"
| "update_first P f (x # xs) = (if P x then f x # xs else x # update_first P f xs)"

text \<open>
  The \<open>for summary in submissions\<close> loop. The session is made with \<open>autoflush=False\<close>
  (app/db.py), so the query of line 29 reads the rows already in the table, with the
  changes the loop has made to them, and does not see the Papers that earlier turns
  have added and that are still pending. The state is the rows of the table and the
  pending Papers; the lookup is by forum alone.
\<close>

fun upsert_loop ::
  "int \<Rightarrow> nat \<Rightarrow> paper list \<times> paper list \<Rightarrow> (string, string option, rat) submission_summary list
     \<Rightarrow> paper list \<times> paper list" where
  "upsert_loop now vid st [] = st"
| "upsert_loop now vid (rows, pending) (summary # submissions) =
     (case find (\<lambda>p. openreview_forum p = forum summary) rows of
        None \<Rightarrow> upsert_loop now vid (rows, pending @ [new_paper now vid summary]) submissions
      | Some found \<Rightarrow>
          upsert_loop now vid
            (update_first (\<lambda>p. openreview_forum p = forum summary) (overwrite_paper now summary) rows,
             pending)
            submissions)"

text \<open>\<open>db.commit()\<close> inserts the pending rows in the order they were added, each under a new key.\<close>

fun insert_papers :: "paper list \<Rightarrow> paper list \<Rightarrow> paper list" where
  "insert_papers rows [] = rows"
| "insert_papers rows (p # pending) =
     insert_papers (rows @ [p\<lparr>p_id := next_id (map p_id rows)\<rparr>]) pending"

fun insert_matches :: "arxiv_match list \<Rightarrow> arxiv_match list \<Rightarrow> arxiv_match list" where
  "insert_matches rows [] = rows"
| "insert_matches rows (m # pending) =
     insert_matches (rows @ [m\<lparr>m_id := next_id (map m_id rows)\<rparr>]) pending"

definition upsert_phase ::
  "int \<Rightarrow> nat \<Rightarrow> store \<Rightarrow> (string, string option, rat) submission_summary list \<Rightarrow> store" where
  "upsert_phase now vid db submissions =
     (case upsert_loop now vid (papers db, []) submissions of
        (rows, pending) \<Rightarrow> db\<lparr>papers := insert_papers rows pending\<rparr>)"

text \<open>
  The query of lines 63 to 65: of the matches of the Paper, the first in descending order
  of \<open>matched_at\<close>.
\<close>

definition latest_match :: "arxiv_match list \<Rightarrow> nat \<Rightarrow> arxiv_match option" where
  "latest_match ms pid =
     (case filter (\<lambda>m. paper_id m = pid) ms of
        [] \<Rightarrow> None
      | m # rest \<Rightarrow> Some (fold (\<lambda>x best. if matched_at best < matched_at x then x else best) rest m))"

definition cache_hit :: "arxiv_match list \<Rightarrow> int \<Rightarrow> paper \<Rightarrow> bool" where
  "cache_hit ms deadline p =
     (case latest_match ms (p_id p) of None \<Rightarrow> False | Some latest \<Rightarrow> deadline < matched_at latest)"

text \<open>
  The \<open>for p in papers\<close> loop. The answer of the archive to the query made for a Paper is
  \<open>query (p_id p)\<close>, a Paper being asked for at most once in a call. The state is the
  pending matches and, for the statements about it, the keys of the Papers the matcher
  was invoked for, in order; an error of the matcher ends the loop. \<open>title_or\<close> is
  \<open>atitle or p.title\<close>.
\<close>

fun title_or :: "string option \<Rightarrow> string \<Rightarrow> string" where
  "title_or (Some (d # ds)) t = d # ds"
| "title_or atitle t = t"

fun match_loop ::
  "(string \<Rightarrow> string \<Rightarrow> rat) \<Rightarrow> (nat \<Rightarrow> string \<Rightarrow> error + (string \<times> string) list) \<Rightarrow> int \<Rightarrow> int
     \<Rightarrow> arxiv_match list \<Rightarrow> arxiv_match list \<times> nat list \<Rightarrow> paper list
     \<Rightarrow> nat list \<times> (error + arxiv_match list)" where
  "match_loop ratio query now deadline ms (pending, calls) [] = (calls, Inr pending)"
| "match_loop ratio query now deadline ms (pending, calls) (p # ps) =
     (if cache_hit ms deadline p then match_loop ratio query now deadline ms (pending, calls) ps
      else (case find_arxiv_match ratio (query (p_id p)) (paper_title p) of
              Inl e \<Rightarrow> (calls @ [p_id p], Inl e)
            | Inr (aid, atitle, ex, sc) \<Rightarrow>
                (case aid of
                   Some (c # cs) \<Rightarrow>
                     match_loop ratio query now deadline ms
                       (pending @ [\<lparr>m_id = 0, paper_id = p_id p, arxiv_id = c # cs,
                                    match_title = title_or atitle (paper_title p),
                                    exact = ex, score = sc, matched_at = now\<rparr>],
                        calls @ [p_id p]) ps
                 | _ \<Rightarrow> match_loop ratio query now deadline ms (pending, calls @ [p_id p]) ps)))"

definition match_phase ::
  "(string \<Rightarrow> string \<Rightarrow> rat) \<Rightarrow> (nat \<Rightarrow> string \<Rightarrow> error + (string \<times> string) list) \<Rightarrow> int \<Rightarrow> int
     \<Rightarrow> store \<Rightarrow> nat \<Rightarrow> store \<times> nat list \<times> (error + unit)" where
  "match_phase ratio query now ttl db vid =
     (case match_loop ratio query now (now - ttl) (arxiv_matches db) ([], [])
             (filter (\<lambda>p. venue_id p = vid) (papers db)) of
        (calls, Inl e) \<Rightarrow> (db, calls, Inl e)
      | (calls, Inr pending) \<Rightarrow>
          (db\<lparr>arxiv_matches := insert_matches (arxiv_matches db) pending\<rparr>, calls, Inr ()))"

text \<open>
  \<open>ingest_group\<close>. \<open>fetch\<close> is the awaited \<open>fetch_submissions_for_group\<close>, \<open>now\<close> the
  instant of the call (every reading of the clock during one call gives \<open>now\<close>) and
  \<open>ttl\<close> the setting \<open>arxiv_ttl\<close>. The result is the store the session leaves, the
  Papers the matcher was invoked for, and the count returned or the error raised. An
  error of the fetch leaves the store as it was; an error of the matcher leaves what the
  first commit wrote.
\<close>

definition arxiv_ttl_default :: int where
  "arxiv_ttl_default = 14 * 24 * 3600"

definition ingest_group ::
  "(string \<Rightarrow> string \<Rightarrow> rat) \<Rightarrow> (nat \<Rightarrow> string \<Rightarrow> error + (string \<times> string) list)
     \<Rightarrow> (string \<Rightarrow> error + (string, string option, rat) submission_summary list) \<Rightarrow> int \<Rightarrow> int
     \<Rightarrow> store \<Rightarrow> string \<Rightarrow> string option \<Rightarrow> int option \<Rightarrow> bool
     \<Rightarrow> store \<times> nat list \<times> (error + nat)" where
  "ingest_group ratio query fetch now ttl db gid nm yr with_arxiv =
     (case fetch gid of
        Inl e \<Rightarrow> (db, [], Inl e)
      | Inr submissions \<Rightarrow>
          (case ensure_venue now db gid nm yr of
             (db1, v) \<Rightarrow>
               let db2 = upsert_phase now (v_id v) db1 submissions;
                   count = length submissions
               in if with_arxiv
                  then (case match_phase ratio query now ttl db2 (v_id v) of
                          (db3, calls, Inl e) \<Rightarrow> (db3, calls, Inl e)
                        | (db3, calls, Inr u) \<Rightarrow> (db3, calls, Inr count))
                  else (db2, [], Inr count)))"

text \<open>
  For the statements about the loop: the rows one turn of \<open>match_loop\<close> adds for a Paper
  the matcher is invoked for, none when the matcher returns no identifier.
\<close>

definition match_rows ::
  "(string \<Rightarrow> string \<Rightarrow> rat) \<Rightarrow> (nat \<Rightarrow> string \<Rightarrow> error + (string \<times> string) list) \<Rightarrow> int \<Rightarrow> paper
     \<Rightarrow> arxiv_match list" where
  "match_rows ratio query now p =
     (case find_arxiv_match ratio (query (p_id p)) (paper_title p) of
        Inr (Some (c # cs), atitle, ex, sc) \<Rightarrow>
          [\<lparr>m_id = 0, paper_id = p_id p, arxiv_id = c # cs,
            match_title = title_or atitle (paper_title p),
            exact = ex, score = sc, matched_at = now\<rparr>]
      | _ \<Rightarrow> [])"

text \<open>
  For the examples: a similarity that is always 0, an archive without candidates, and a
  fetcher that returns the given summaries.
\<close>

definition zero_ratio :: "string \<Rightarrow> string \<Rightarrow> rat" where
  "zero_ratio a b = 0"

definition no_candidates :: "nat \<Rightarrow> string \<Rightarrow> error + (string \<times> string) list" where
  "no_candidates k t = Inr []"

definition fetched ::
  "(string, string option, rat) submission_summary list \<Rightarrow> string
     \<Rightarrow> error + (string, string option, rat) submission_summary list" where
  "fetched submissions gid = Inr submissions"

text \<open>
  For the statements about \<open>upsert_loop\<close>: a row after the loop, when the rows have
  pairwise distinct forums. It is overwritten with the last summary of its forum.
\<close>

definition overwritten ::
  "int \<Rightarrow> (string, string option, rat) submission_summary list \<Rightarrow> paper \<Rightarrow> paper" where
  "overwritten now subs p =
     (case find (\<lambda>s. forum s = openreview_forum p) (rev subs) of
        None \<Rightarrow> p
      | Some s \<Rightarrow> overwrite_paper now s p)"


text \<open>
  For the statements about a second ingestion: a Paper whose denormalized columns are
  those a summary gives.
\<close>

definition carries :: "(string, string option, rat) submission_summary \<Rightarrow> paper \<Rightarrow> bool" where
  "carries s p =
     (paper_title p = title s \<and> paper_abstract p = abstract s \<and> paper_authors p = authors s
      \<and> paper_keywords p = py_join '', '' (keywords_list s) \<and> paper_decision p = decision s
      \<and> paper_avg_rating p = avg_rating s \<and> paper_num_reviews p = num_reviews s)"

section \<open>Properties of the matcher\<close>

lemma scan_candidates_exact:
  "\<forall>c \<in> set pre. normalize_title (snd c) \<noteq> nt \<Longrightarrow> normalize_title atitle = nt \<Longrightarrow>
   scan_candidates ratio qtitle nt best (pre @ (aid, atitle) # post) = (Some aid, Some atitle, True, 1)"
  by (induction pre arbitrary: best) (auto simp: Let_def)

lemma scan_candidates_keep:
  "\<forall>c \<in> set cs. normalize_title (snd c) \<noteq> nt \<Longrightarrow>
   \<forall>c \<in> set cs. similarity ratio qtitle (snd c) \<le> snd (snd (snd best)) \<Longrightarrow>
   scan_candidates ratio qtitle nt best cs = best"
  by (induction cs arbitrary: best) (auto simp: Let_def)

lemma scan_candidates_max:
  "\<forall>c \<in> set cs. normalize_title (snd c) \<noteq> nt \<Longrightarrow>
   \<exists>c \<in> set cs. snd (snd (snd best)) < similarity ratio qtitle (snd c) \<Longrightarrow>
   \<exists>pre aid atitle post.
      cs = pre @ (aid, atitle) # post
      \<and> (\<forall>c \<in> set pre. similarity ratio qtitle (snd c) < similarity ratio qtitle atitle)
      \<and> (\<forall>c \<in> set post. similarity ratio qtitle (snd c) \<le> similarity ratio qtitle atitle)
      \<and> snd (snd (snd best)) < similarity ratio qtitle atitle
      \<and> scan_candidates ratio qtitle nt best cs
          = (Some aid, Some atitle, False, similarity ratio qtitle atitle)"
proof (induction cs arbitrary: best)
  case Nil
  then show ?case by simp
next
  case (Cons c cs)
  obtain aid atitle where c: "c = (aid, atitle)" by (cases c)
  let ?sim = "\<lambda>x. similarity ratio qtitle (snd x)"
  let ?s = "similarity ratio qtitle atitle"
  let ?b = "snd (snd (snd best))"
  let ?best' = "if ?s > ?b then (Some aid, Some atitle, False, ?s) else best"
  from Cons.prems(1) have ne: "normalize_title atitle \<noteq> nt"
    and rest: "\<forall>c \<in> set cs. normalize_title (snd c) \<noteq> nt"
    by (simp_all add: c)
  have step: "scan_candidates ratio qtitle nt best (c # cs) = scan_candidates ratio qtitle nt ?best' cs"
    using ne by (simp add: c Let_def)
  have b': "snd (snd (snd ?best')) = max ?b ?s" by (simp add: max_def)
  show ?case
  proof (cases "\<exists>x \<in> set cs. max ?b ?s < ?sim x")
    case True
    then have "\<exists>x \<in> set cs. snd (snd (snd ?best')) < ?sim x" by (simp only: b')
    from Cons.IH [OF rest this] obtain pre a t post where
      cs: "cs = pre @ (a, t) # post"
      and pre: "\<forall>x \<in> set pre. ?sim x < similarity ratio qtitle t"
      and post: "\<forall>x \<in> set post. ?sim x \<le> similarity ratio qtitle t"
      and gt: "snd (snd (snd ?best')) < similarity ratio qtitle t"
      and res: "scan_candidates ratio qtitle nt ?best' cs = (Some a, Some t, False, similarity ratio qtitle t)"
      by blast
    from gt have gt': "?b < similarity ratio qtitle t" "?s < similarity ratio qtitle t"
      by (simp_all only: b' max_less_iff_conj)
    have 1: "c # cs = (c # pre) @ (a, t) # post" using cs by simp
    have 2: "\<forall>x \<in> set (c # pre). ?sim x < similarity ratio qtitle t"
      using pre gt'(2) by (simp add: c)
    have 3: "scan_candidates ratio qtitle nt best (c # cs) = (Some a, Some t, False, similarity ratio qtitle t)"
      using step res by simp
    from 1 2 post gt'(1) 3 show ?thesis by blast
  next
    case False
    then have le: "\<forall>x \<in> set cs. ?sim x \<le> max ?b ?s" by (auto simp: not_less)
    then have le': "\<forall>x \<in> set cs. ?sim x \<le> snd (snd (snd ?best'))" by (simp only: b')
    have keep: "scan_candidates ratio qtitle nt ?best' cs = ?best'"
      by (rule scan_candidates_keep [OF rest le'])
    from Cons.prems(2) False have big: "?b < ?s"
      by (auto simp: c not_less max_def split: if_splits)
    then have mx: "max ?b ?s = ?s" by simp
    have 1: "c # cs = [] @ (aid, atitle) # cs" by (simp add: c)
    have 2: "\<forall>x \<in> set []. ?sim x < ?s" by simp
    have 3: "\<forall>x \<in> set cs. ?sim x \<le> ?s" using le by (simp only: mx)
    have 4: "scan_candidates ratio qtitle nt best (c # cs) = (Some aid, Some atitle, False, ?s)"
      using step keep big by simp
    from 1 2 3 big 4 show ?thesis by blast
  qed
qed


text \<open>
  C5. If some candidate's normalized title equals the normalized query title, the matcher
  returns the first such candidate in list order, with \<open>exact = True\<close> and score 1. The
  result depends neither on the candidates after it nor on any similarity score.
\<close>

theorem find_arxiv_match_first_exact:
  assumes "query qtitle = Inr (pre @ (aid, atitle) # post)"
    and "\<forall>c \<in> set pre. normalize_title (snd c) \<noteq> normalize_title qtitle"
    and "normalize_title atitle = normalize_title qtitle"
  shows "find_arxiv_match ratio query qtitle = Inr (Some aid, Some atitle, True, 1)"
  using assms scan_candidates_exact [of pre "normalize_title qtitle" atitle ratio qtitle _ aid post]
  by (simp add: find_arxiv_match_def)

theorem find_arxiv_match_first_exact_witness:
  "normalize_title ''Foo Bar'' = ''foo bar''
   \<and> normalize_title ''foo   bar'' = ''foo bar''
   \<and> normalize_title ''Another title!'' = ''another title''
   \<and> find_arxiv_match (\<lambda>a b. 0)
        (\<lambda>t. Inr [(''0000.0000'', ''Another title!''), (''1111.1111'', ''Foo Bar''),
                   (''2222.2222'', ''foo   bar'')]) ''Foo Bar''
       = Inr (Some ''1111.1111'', Some ''Foo Bar'', True, 1)"
proof -
  have n1: "normalize_title ''Foo Bar'' = ''foo bar''" by code_simp
  have n2: "normalize_title ''foo   bar'' = ''foo bar''" by code_simp
  have n3: "normalize_title ''Another title!'' = ''another title''" by code_simp
  show ?thesis
    using find_arxiv_match_first_exact
      [of "\<lambda>t. Inr [(''0000.0000'', ''Another title!''), (''1111.1111'', ''Foo Bar''),
                     (''2222.2222'', ''foo   bar'')]"
          "''Foo Bar''" "[(''0000.0000'', ''Another title!'')]" "''1111.1111''" "''Foo Bar''"
          "[(''2222.2222'', ''foo   bar'')]" "\<lambda>a b. 0"]
    by (simp add: n1 n2 n3)
qed

text \<open>
  C6. When no candidate's normalized title equals the normalized query, the matcher returns
  a candidate of maximal similarity chosen by a scan that replaces the best only on a
  strictly greater score: every earlier candidate scores strictly less and every later
  one at most as much. When the candidate list is empty, or no candidate scores above 0,
  it returns no identifier and no title, with \<open>exact = False\<close> and score 0.
\<close>

theorem find_arxiv_match_best_similarity:
  assumes "query qtitle = Inr cs"
    and "\<forall>c \<in> set cs. normalize_title (snd c) \<noteq> normalize_title qtitle"
  shows "(cs = [] \<or> (\<forall>c \<in> set cs. similarity ratio qtitle (snd c) \<le> 0) \<longrightarrow>
            find_arxiv_match ratio query qtitle = Inr (None, None, False, 0))
       \<and> ((\<exists>c \<in> set cs. 0 < similarity ratio qtitle (snd c)) \<longrightarrow>
            (\<exists>pre aid atitle post.
               cs = pre @ (aid, atitle) # post
               \<and> (\<forall>c \<in> set pre. similarity ratio qtitle (snd c) < similarity ratio qtitle atitle)
               \<and> (\<forall>c \<in> set post. similarity ratio qtitle (snd c) \<le> similarity ratio qtitle atitle)
               \<and> find_arxiv_match ratio query qtitle
                   = Inr (Some aid, Some atitle, False, similarity ratio qtitle atitle)))"
proof (intro conjI impI)
  assume "cs = [] \<or> (\<forall>c \<in> set cs. similarity ratio qtitle (snd c) \<le> 0)"
  then show "find_arxiv_match ratio query qtitle = Inr (None, None, False, 0)"
  proof
    assume "cs = []"
    with assms(1) show ?thesis by (simp add: find_arxiv_match_def)
  next
    assume "\<forall>c \<in> set cs. similarity ratio qtitle (snd c) \<le> 0"
    then have "scan_candidates ratio qtitle (normalize_title qtitle) (None, None, False, 0) cs
               = (None, None, False, 0)"
      using assms(2) by (intro scan_candidates_keep) simp_all
    with assms(1) show ?thesis by (simp add: find_arxiv_match_def)
  qed
next
  assume pos: "\<exists>c \<in> set cs. 0 < similarity ratio qtitle (snd c)"
  then have ne: "cs \<noteq> []" by auto
  from pos have "\<exists>c \<in> set cs. snd (snd (snd (None :: string option, None :: string option, False, 0 :: rat)))
                   < similarity ratio qtitle (snd c)" by simp
  from scan_candidates_max [OF assms(2) this] obtain pre aid atitle post where
    "cs = pre @ (aid, atitle) # post"
    "\<forall>c \<in> set pre. similarity ratio qtitle (snd c) < similarity ratio qtitle atitle"
    "\<forall>c \<in> set post. similarity ratio qtitle (snd c) \<le> similarity ratio qtitle atitle"
    "scan_candidates ratio qtitle (normalize_title qtitle) (None, None, False, 0) cs
       = (Some aid, Some atitle, False, similarity ratio qtitle atitle)"
    by blast
  moreover from this(4) assms(1) ne have
    "find_arxiv_match ratio query qtitle = Inr (Some aid, Some atitle, False, similarity ratio qtitle atitle)"
    by (simp add: find_arxiv_match_def)
  ultimately show "\<exists>pre aid atitle post.
               cs = pre @ (aid, atitle) # post
               \<and> (\<forall>c \<in> set pre. similarity ratio qtitle (snd c) < similarity ratio qtitle atitle)
               \<and> (\<forall>c \<in> set post. similarity ratio qtitle (snd c) \<le> similarity ratio qtitle atitle)
               \<and> find_arxiv_match ratio query qtitle
                   = Inr (Some aid, Some atitle, False, similarity ratio qtitle atitle)"
    by blast
qed

theorem find_arxiv_match_best_similarity_witness:
  "find_arxiv_match (\<lambda>a b. if b = ''foo'' then 1 / 4 else 3 / 4)
        (\<lambda>t. Inr [(''1'', ''Foo''), (''2'', ''Foo Baz''), (''3'', ''Foo Bat'')]) ''Foo Bar''
       = Inr (Some ''2'', Some ''Foo Baz'', False, 3 / 4)
   \<and> (\<exists>pre aid atitle post.
         [(''1'', ''Foo''), (''2'', ''Foo Baz''), (''3'', ''Foo Bat'')] = pre @ (aid, atitle) # post
         \<and> find_arxiv_match (\<lambda>a b. if b = ''foo'' then 1 / 4 else 3 / 4)
              (\<lambda>t. Inr [(''1'', ''Foo''), (''2'', ''Foo Baz''), (''3'', ''Foo Bat'')]) ''Foo Bar''
             = Inr (Some aid, Some atitle, False,
                    similarity (\<lambda>a b. if b = ''foo'' then 1 / 4 else 3 / 4) ''Foo Bar'' atitle))
   \<and> find_arxiv_match (\<lambda>a b. 0) (\<lambda>t. Inr [(''1'', ''Foo'')]) ''Foo Bar''
       = Inr (None, None, False, 0)"
proof -
  let ?cs = "[(''1'', ''Foo''), (''2'', ''Foo Baz''), (''3'', ''Foo Bat'')]"
  let ?r = "\<lambda>(a::string) (b::string). if b = ''foo'' then 1 / 4 else (3 / 4 :: rat)"
  have n0: "normalize_title ''Foo Bar'' = ''foo bar''" by code_simp
  have n1: "normalize_title ''Foo'' = ''foo''" by code_simp
  have n2: "normalize_title ''Foo Baz'' = ''foo baz''" by code_simp
  have n3: "normalize_title ''Foo Bat'' = ''foo bat''" by code_simp
  have h: "\<forall>c \<in> set ?cs. normalize_title (snd c) \<noteq> normalize_title ''Foo Bar''"
    by (simp add: n0 n1 n2 n3)
  have p: "\<exists>c \<in> set ?cs. 0 < similarity ?r ''Foo Bar'' (snd c)"
    by (simp add: similarity_def)
  have e: "find_arxiv_match ?r (\<lambda>t. Inr ?cs) ''Foo Bar'' = Inr (Some ''2'', Some ''Foo Baz'', False, 3 / 4)"
    by (simp add: find_arxiv_match_def similarity_def n0 n1 n2 n3 Let_def)
  have h1: "\<forall>c \<in> set [(''1'', ''Foo'')]. normalize_title (snd c) \<noteq> normalize_title ''Foo Bar''"
    by (simp add: n0 n1)
  have t1: "\<exists>pre aid atitle post.
         ?cs = pre @ (aid, atitle) # post
         \<and> find_arxiv_match ?r (\<lambda>t. Inr ?cs) ''Foo Bar''
             = Inr (Some aid, Some atitle, False, similarity ?r ''Foo Bar'' atitle)"
    using find_arxiv_match_best_similarity [of "\<lambda>t. Inr ?cs" "''Foo Bar''" ?cs ?r, OF refl h] p
    by blast
  have t2: "find_arxiv_match (\<lambda>a b. 0) (\<lambda>t. Inr [(''1'', ''Foo'')]) ''Foo Bar'' = Inr (None, None, False, 0)"
    using find_arxiv_match_best_similarity
      [of "\<lambda>t. Inr [(''1'', ''Foo'')]" "''Foo Bar''" "[(''1'', ''Foo'')]" "\<lambda>a b. 0", OF refl h1]
    by (simp add: similarity_def)
  from e t1 t2 show ?thesis by blast
qed

section \<open>Properties of the fetcher\<close>

lemma fetch_loop_pages:
  assumes "\<forall>j < length ps. response_notes (client (length sent + j)
              \<lparr>invitation = invite, details = ''directReplies'', limit = 200,
               offset = off + length (concat (take j ps))\<rparr>) = Inr (ps ! j)"
    and "\<forall>j < length ps. Suc j < length ps \<longrightarrow> 200 \<le> length (ps ! j)"
    and "ps \<noteq> []" and "length (last ps) < 200"
  shows "fetch_loop client invite off collected sent
         = Some (sent @ map (\<lambda>j. \<lparr>invitation = invite, details = ''directReplies'', limit = 200,
                                  offset = off + length (concat (take j ps))\<rparr>) [0..<length ps],
                 Inr (collected @ concat ps))"
  using assms
proof (induction ps arbitrary: off collected sent)
  case Nil
  then show ?case by simp
next
  case (Cons p ps)
  let ?rq = "\<lparr>invitation = invite, details = ''directReplies'', limit = 200, offset = off\<rparr>"
  from Cons.prems(1) have r0: "response_notes (client (length sent) ?rq) = Inr p"
    by (auto dest: spec [where x = 0])
  show ?case
  proof (cases "ps = []")
    case True
    with Cons.prems(4) have "length p < 200" by simp
    with r0 True show ?thesis
      by (subst fetch_loop.simps) (simp add: page_size_def Let_def)
  next
    case False
    with Cons.prems(2) have big: "200 \<le> length p" by (auto dest: spec [where x = 0])
    then have pne: "p \<noteq> []" by auto
    have step: "fetch_loop client invite off collected sent
                = fetch_loop client invite (off + length p) (collected @ p) (sent @ [?rq])"
      using r0 big pne by (subst fetch_loop.simps) (simp add: page_size_def Let_def)
    have a1: "\<forall>j < length ps. response_notes (client (length (sent @ [?rq]) + j)
              \<lparr>invitation = invite, details = ''directReplies'', limit = 200,
               offset = (off + length p) + length (concat (take j ps))\<rparr>) = Inr (ps ! j)"
    proof (intro allI impI)
      fix j assume "j < length ps"
      then have "Suc j < length (p # ps)" by simp
      with Cons.prems(1) have "response_notes (client (length sent + Suc j)
              \<lparr>invitation = invite, details = ''directReplies'', limit = 200,
               offset = off + length (concat (take (Suc j) (p # ps)))\<rparr>) = Inr ((p # ps) ! Suc j)"
        by blast
      then show "response_notes (client (length (sent @ [?rq]) + j)
              \<lparr>invitation = invite, details = ''directReplies'', limit = 200,
               offset = (off + length p) + length (concat (take j ps))\<rparr>) = Inr (ps ! j)"
        by (simp add: add.assoc)
    qed
    have a2: "\<forall>j < length ps. Suc j < length ps \<longrightarrow> 200 \<le> length (ps ! j)"
      using Cons.prems(2) by (auto dest: spec [where x = "Suc j" for j])
    have a4: "length (last ps) < 200" using Cons.prems(4) False by simp
    have idx: "[0..<Suc (length ps)] = 0 # map Suc [0..<length ps]"
      by (simp add: upt_conv_Cons map_Suc_upt del: upt_Suc)
    show ?thesis
      unfolding step Cons.IH [OF a1 a2 False a4]
      by (simp add: idx comp_def add.assoc del: upt_Suc)
  qed
qed


text \<open>
  C7. For every invitation the loop asks for pages of size 200 from offset 0, each offset
  being the number of records received so far, and stops at the first page with fewer than
  200 records (an empty page included): when the source answers with the pages \<open>pages\<close>,
  all but the last of them of at least 200 records and the last of fewer than 200, the
  loop returns, sends exactly one request per page and collects the concatenation of the
  pages. A full page followed by an empty one costs two requests, a short first page one.
\<close>

theorem fetch_notes_pagination:
  assumes "pages \<noteq> []"
    and "\<forall>k < length pages.
           response_notes (client k (page_request invite pages k)) = Inr (pages ! k)"
    and "\<forall>k. Suc k < length pages \<longrightarrow> 200 \<le> length (pages ! k)"
    and "length (last pages) < 200"
  shows "fetch_notes client invite
         = Some (map (page_request invite pages) [0..<length pages], Inr (concat pages))"
proof -
  have a1: "\<forall>j < length pages. response_notes (client (length ([] :: request list) + j)
              \<lparr>invitation = invite, details = ''directReplies'', limit = 200,
               offset = 0 + length (concat (take j pages))\<rparr>) = Inr (pages ! j)"
    using assms(2) by (simp add: page_request_def)
  have a2: "\<forall>j < length pages. Suc j < length pages \<longrightarrow> 200 \<le> length (pages ! j)"
    using assms(3) by simp
  show ?thesis
    unfolding fetch_notes_def fetch_loop_pages [OF a1 a2 assms(1) assms(4)]
    by (simp add: page_request_def)
qed

theorem fetch_notes_pagination_witness:
  "fetch_notes (\<lambda>k rq. if offset rq = 0 then Body (Some (replicate 200 (7::nat))) None
                        else Body (Some []) None) ''V/-/Submission''
     = Some ([\<lparr>invitation = ''V/-/Submission'', details = ''directReplies'', limit = 200, offset = 0\<rparr>,
              \<lparr>invitation = ''V/-/Submission'', details = ''directReplies'', limit = 200, offset = 200\<rparr>],
             Inr (replicate 200 7))
   \<and> fetch_notes (\<lambda>k rq. Body None (Some [1::nat, 2, 3])) ''V/-/Submission''
     = Some ([\<lparr>invitation = ''V/-/Submission'', details = ''directReplies'', limit = 200, offset = 0\<rparr>],
             Inr [1, 2, 3])"
proof -
  let ?c = "\<lambda>(k::nat) rq. if offset rq = 0 then Body (Some (replicate 200 (7::nat))) None
                        else Body (Some []) None"
  have r: "response_notes (Body (Some (replicate 200 (7::nat))) None) = Inr (replicate 200 7)"
    by simp
  have "fetch_notes ?c ''V/-/Submission''
     = Some (map (page_request ''V/-/Submission'' [replicate 200 (7::nat), []]) [0..<length [replicate 200 (7::nat), []]],
             Inr (concat [replicate 200 (7::nat), []]))"
    by (rule fetch_notes_pagination) (simp_all add: page_request_def less_Suc_eq r)
  then have 1: "fetch_notes ?c ''V/-/Submission''
     = Some ([\<lparr>invitation = ''V/-/Submission'', details = ''directReplies'', limit = 200, offset = 0\<rparr>,
              \<lparr>invitation = ''V/-/Submission'', details = ''directReplies'', limit = 200, offset = 200\<rparr>],
             Inr (replicate 200 7))"
    by (simp add: page_request_def upt_rec)
  have "fetch_notes (\<lambda>k rq. Body None (Some [1::nat, 2, 3])) ''V/-/Submission''
     = Some (map (page_request ''V/-/Submission'' [[1::nat, 2, 3]]) [0..<length [[1::nat, 2, 3]]],
             Inr (concat [[1, 2, 3]]))"
    by (rule fetch_notes_pagination) (simp_all add: page_request_def)
  then have 2: "fetch_notes (\<lambda>k rq. Body None (Some [1::nat, 2, 3])) ''V/-/Submission''
     = Some ([\<lparr>invitation = ''V/-/Submission'', details = ''directReplies'', limit = 200, offset = 0\<rparr>],
             Inr [1, 2, 3])"
    by (simp add: page_request_def)
  from 1 2 show ?thesis by blast
qed

section \<open>Properties of the normalizer\<close>

lemma find_append_case:
  "find P (xs @ ys) = (case find P xs of None \<Rightarrow> find P ys | Some x \<Rightarrow> Some x)"
  by (induction xs) auto

lemma summarize_reply_effect:
  assumes "summarize_reply ops repr st reply = Inr st'"
  shows "fst st' = (if contributes_decision reply
                    then Some (py_str repr (decision_value (reply_content reply))) else fst st)"
    and "snd st' = snd st @ rating_samples ops repr (reply_content reply)"
  using assms
  by (auto simp: summarize_reply_def contributes_decision_def decision_gate_def reply_content_def
      reply_invitation_def Let_def split: json.splits sum.splits if_splits)

lemma summarize_replies_effect:
  "summarize_replies ops repr st direct = Inr st' \<Longrightarrow>
     fst st' = (case find contributes_decision (rev direct) of
                  None \<Rightarrow> fst st
                | Some reply \<Rightarrow> Some (py_str repr (decision_value (reply_content reply))))
   \<and> snd st' = snd st @ concat (map (\<lambda>reply. rating_samples ops repr (reply_content reply)) direct)"
proof (induction direct arbitrary: st)
  case Nil
  then show ?case by simp
next
  case (Cons reply direct)
  from Cons.prems obtain st1 where
    1: "summarize_reply ops repr st reply = Inr st1" and 2: "summarize_replies ops repr st1 direct = Inr st'"
    by (auto split: sum.splits)
  note e = summarize_reply_effect [OF 1]
  from Cons.IH [OF 2] e show ?case
    by (auto simp: find_append_case split: option.splits)
qed


lemma scan_rating_skip:
  "\<forall>c \<in> set pre. \<not> py_isdigit c \<and> c \<noteq> CHR ''.'' \<Longrightarrow> scan_rating [] (pre @ s) = scan_rating [] s"
  by (induction pre) auto

lemma scan_rating_token:
  "\<forall>c \<in> set tok. py_isdigit c \<or> c = CHR ''.'' \<Longrightarrow> count_list (buf @ tok) CHR ''.'' \<le> 1 \<Longrightarrow>
   buf @ tok \<noteq> [] \<Longrightarrow>
   rest = [] \<or> (\<not> py_isdigit (hd rest) \<and> (hd rest = CHR ''.'' \<longrightarrow> CHR ''.'' \<in> set (buf @ tok))) \<Longrightarrow>
   scan_rating buf (tok @ rest) = buf @ tok"
proof (induction tok arbitrary: buf)
  case Nil
  then show ?case by (cases rest) auto
next
  case (Cons c tok)
  have ok: "py_isdigit c \<or> (c = CHR ''.'' \<and> CHR ''.'' \<notin> set buf)"
  proof (cases "c = CHR ''.''")
    case True
    with Cons.prems(2) have "count_list buf CHR ''.'' = 0" by simp
    then show ?thesis using True by (simp add: count_list_0_iff)
  next
    case False
    with Cons.prems(1) show ?thesis by simp
  qed
  have "scan_rating (buf @ [c]) (tok @ rest) = (buf @ [c]) @ tok"
    using Cons.prems by (intro Cons.IH) auto
  with ok show ?case by auto
qed

lemma parse_rating_token:
  assumes "\<forall>c \<in> set pre. \<not> py_isdigit c \<and> c \<noteq> CHR ''.''"
    and "tok \<noteq> []" and "\<forall>c \<in> set tok. py_isdigit c \<or> c = CHR ''.''"
    and "count_list tok CHR ''.'' \<le> 1"
    and "rest = [] \<or> (\<not> py_isdigit (hd rest) \<and> (hd rest = CHR ''.'' \<longrightarrow> CHR ''.'' \<in> set tok))"
  shows "parse_rating ops repr (JStr (pre @ tok @ rest)) = float_of_token ops tok"
proof -
  have "scan_rating [] (pre @ tok @ rest) = scan_rating [] (tok @ rest)"
    using assms(1) by (rule scan_rating_skip)
  also have "\<dots> = [] @ tok"
    using assms(2-5) by (intro scan_rating_token) auto
  finally show ?thesis using assms(2) by (simp add: py_str_def)
qed

lemma parse_rating_no_token:
  assumes "\<forall>c \<in> set s. \<not> py_isdigit c \<and> c \<noteq> CHR ''.''"
  shows "parse_rating ops repr (JStr s) = None"
proof -
  have "scan_rating [] (s @ []) = scan_rating [] []" using assms by (rule scan_rating_skip)
  then show ?thesis by (simp add: py_str_def)
qed


lemma summarize_Inr:
  assumes "summarize ops repr (JDict nt) = Inr s"
  obtains content direct dec ratings where
    "py_or (dict_get_default nt ''content'' (JDict [])) (JDict []) = JDict content"
    "direct_replies nt = Inr direct"
    "summarize_replies ops repr (None, []) direct = Inr (dec, ratings)"
    "forum s = py_or (dict_get nt ''forum'') (dict_get nt ''id'')"
    "note_id s = dict_get nt ''id''"
    "decision s = dec"
    "num_reviews s = length ratings"
    "avg_rating s = (if ratings \<noteq> [] then Some (float_div ops (float_sum ops ratings) (float_round ops (of_nat (length ratings)))) else None)"
proof (cases "py_or (dict_get_default nt ''content'' (JDict [])) (JDict [])")
  case (JDict content)
  note c = this
  show ?thesis
  proof (cases "direct_replies nt")
    case (Inl e)
    with assms c show ?thesis by (simp add: summarize_def Let_def)
  next
    case (Inr direct)
    note d = this
    show ?thesis
    proof (cases "summarize_replies ops repr (None, []) direct")
      case (Inl e)
      with assms c d show ?thesis by (simp add: summarize_def Let_def)
    next
      case (Inr st)
      obtain dec ratings where st: "st = (dec, ratings)" by (cases st)
      from assms c d Inr st have
        "s = \<lparr>forum = py_or (dict_get nt ''forum'') (dict_get nt ''id''),
              note_id = dict_get nt ''id'',
              title = py_or (py_or (dict_get content ''title'') (dict_get content ''Title'')) (JStr []),
              abstract = py_or (dict_get content ''abstract'') (dict_get content ''Abstract''),
              authors = (case py_or (py_or (dict_get content ''authors'') (dict_get content ''Authors'')) (JList []) of
                           JList as \<Rightarrow> py_join ''; '' (map (py_str repr) as)
                         | _ \<Rightarrow> py_str repr (py_or (py_or (dict_get content ''authors'') (dict_get content ''Authors'')) (JList []))),
              keywords_list = extract_keywords repr content,
              decision = dec,
              avg_rating = (if ratings \<noteq> [] then Some (float_div ops (float_sum ops ratings) (float_round ops (of_nat (length ratings)))) else None),
              num_reviews = length ratings\<rparr>"
        by (simp add: summarize_def Let_def)
      then have "forum s = py_or (dict_get nt ''forum'') (dict_get nt ''id'')"
        "note_id s = dict_get nt ''id''" "decision s = dec" "num_reviews s = length ratings"
        "avg_rating s = (if ratings \<noteq> [] then Some (float_div ops (float_sum ops ratings) (float_round ops (of_nat (length ratings)))) else None)"
        by simp_all
      with c d Inr st that show ?thesis by blast
    qed
  qed
qed (use assms in \<open>simp_all add: summarize_def\<close>)

lemma summarize_loop_result:
  assumes "summarize ops repr (JDict nt) = Inr s" and "direct_replies nt = Inr direct"
  shows "\<exists>dec ratings. summarize_replies ops repr (None, []) direct = Inr (dec, ratings)
           \<and> decision s = dec
           \<and> num_reviews s = length ratings
           \<and> avg_rating s = (if ratings \<noteq> [] then Some (float_div ops (float_sum ops ratings) (float_round ops (of_nat (length ratings)))) else None)"
proof -
  from assms(1) obtain direct' dec ratings where
    d: "direct_replies nt = Inr direct'"
    and l: "summarize_replies ops repr (None, []) direct' = Inr (dec, ratings)"
    and r: "decision s = dec" "num_reviews s = length ratings"
      "avg_rating s = (if ratings \<noteq> [] then Some (float_div ops (float_sum ops ratings) (float_round ops (of_nat (length ratings)))) else None)"
    by (rule summarize_Inr)
  from d assms(2) have "direct' = direct" by simp
  with l r show ?thesis by blast
qed

text \<open>
  C8, as the code has it. A direct reply assigns the decision exactly when its invitation
  contains \<open>Decision\<close> or one of its content keys equals \<open>decision\<close> case-insensitively,
  and moreover the value read is truthy. The value read is the first truthy one of the
  content entries \<open>decision\<close>, \<open>Decision\<close> and \<open>recommendation\<close>, replaced by its
  \<open>value\<close> entry when it is a dict that has one. The summary's decision is the string form
  of the value of the last reply that assigns it, and is absent when no reply does. A
  \<open>{value: v}\<close> wrapper under \<open>decision\<close> is unwrapped to \<open>v\<close>, and a non-empty string is
  taken as it is.
\<close>

theorem summarize_decision:
  assumes "summarize ops repr (JDict nt) = Inr s" and "direct_replies nt = Inr direct"
  shows "decision s = (case find contributes_decision (rev direct) of
                         None \<Rightarrow> None
                       | Some reply \<Rightarrow> Some (py_str repr (decision_value (reply_content reply))))
       \<and> (\<forall>rc d v. dict_get rc ''decision'' = JDict d \<and> map_of d ''value'' = Some v
              \<longrightarrow> decision_value rc = v)
       \<and> (\<forall>rc x. dict_get rc ''decision'' = JStr x \<and> x \<noteq> [] \<longrightarrow> decision_value rc = JStr x)"
proof (intro conjI allI impI)
  from summarize_loop_result [OF assms] obtain dec ratings where
    "summarize_replies ops repr (None, []) direct = Inr (dec, ratings)" "decision s = dec"
    by blast
  with summarize_replies_effect [of ops repr "(None, [])" direct "(dec, ratings)"]
  show "decision s = (case find contributes_decision (rev direct) of
                         None \<Rightarrow> None
                       | Some reply \<Rightarrow> Some (py_str repr (decision_value (reply_content reply))))"
    by (simp split: option.splits)
next
  fix rc d v
  assume a: "dict_get rc ''decision'' = JDict d \<and> map_of d ''value'' = Some v"
  then have ne: "d \<noteq> []" by auto
  from a have "(''value'', v) \<in> set d" by (simp add: map_of_SomeD)
  then have "fst (''value'', v) \<in> fst ` set d" by (rule imageI)
  then have mem: "''value'' \<in> set (map fst d)" by simp
  have g: "dict_get d ''value'' = v" using a by (simp add: dict_get_def)
  have "py_or (py_or (dict_get rc ''decision'') (dict_get rc ''Decision'')) (dict_get rc ''recommendation'') = JDict d"
    using a ne by (simp add: py_or_def)
  then show "decision_value rc = v"
    using mem g by (simp add: decision_value_def)
next
  fix rc x
  assume "dict_get rc ''decision'' = JStr x \<and> x \<noteq> []"
  then show "decision_value rc = JStr x"
    by (simp add: decision_value_def py_or_def)
qed

theorem summarize_decision_witness:
  "summarize exact_ops py_repr
     (JDict [(''id'', JStr ''n1''), (''content'', JDict [(''title'', JStr ''T'')]),
             (''details'', JDict [(''directReplies'', JList [
                JDict [(''invitation'', JStr ''V/-/Decision''),
                       (''content'', JDict [(''decision'', JDict [(''value'', JStr ''Accept'')])])],
                JDict [(''invitation'', JStr ''V/-/Official_Comment''),
                       (''content'', JDict [(''comment'', JStr ''thanks'')])]])])])
     = Inr \<lparr>forum = JStr ''n1'', note_id = JStr ''n1'', title = JStr ''T'', abstract = JNull,
            authors = [], keywords_list = [], decision = Some ''Accept'', avg_rating = None,
            num_reviews = 0\<rparr>
   \<and> decision \<lparr>forum = JStr ''n1'', note_id = JStr ''n1'', title = JStr ''T'', abstract = JNull,
            authors = [], keywords_list = [], decision = Some ''Accept'', avg_rating = (None :: rat option),
            num_reviews = 0 :: nat\<rparr>
       = Some ''Accept''"
proof -
  let ?r1 = "JDict [(''invitation'', JStr ''V/-/Decision''),
                    (''content'', JDict [(''decision'', JDict [(''value'', JStr ''Accept'')])])]"
  let ?r2 = "JDict [(''invitation'', JStr ''V/-/Official_Comment''),
                    (''content'', JDict [(''comment'', JStr ''thanks'')])]"
  let ?nt = "[(''id'', JStr ''n1''), (''content'', JDict [(''title'', JStr ''T'')]),
              (''details'', JDict [(''directReplies'', JList [?r1, ?r2])])]"
  let ?s = "\<lparr>forum = JStr ''n1'', note_id = JStr ''n1'', title = JStr ''T'', abstract = JNull,
            authors = [], keywords_list = [], decision = Some ''Accept'', avg_rating = None,
            num_reviews = 0\<rparr> :: (json, json, rat) submission_summary"
  have e: "summarize exact_ops py_repr (JDict ?nt) = Inr ?s" by code_simp
  have d: "direct_replies ?nt = Inr [?r1, ?r2]" by code_simp
  have g: "(case find contributes_decision (rev [?r1, ?r2]) of
              None \<Rightarrow> None
            | Some reply \<Rightarrow> Some (py_str py_repr (decision_value (reply_content reply))))
           = Some ''Accept''"
    by code_simp
  from summarize_decision [OF e d] have
    "decision ?s = (case find contributes_decision (rev [?r1, ?r2]) of
                         None \<Rightarrow> None
                       | Some reply \<Rightarrow> Some (py_str py_repr (decision_value (reply_content reply))))"
    by (rule conjunct1)
  then have "decision ?s = Some ''Accept''" by (simp only: g)
  with e show ?thesis by (rule conjI)
qed

text \<open>
  C8 as stated fails: a reply whose invitation contains \<open>Decision\<close> but whose content has
  none of the three entries passes the test and contributes no decision, and so does a
  reply whose only content key is \<open>DECISION\<close>.
\<close>

theorem summarize_decision_counterexample:
  "decision_gate (JDict [(''invitation'', JStr ''V/-/Decision''),
                         (''content'', JDict [(''comment'', JStr ''see the meta-review'')])])
   \<and> summarize exact_ops py_repr
        (JDict [(''id'', JStr ''n1''), (''forum'', JStr ''n1''),
                (''content'', JDict [(''title'', JStr ''T'')]),
                (''details'', JDict [(''directReplies'', JList [
                   JDict [(''invitation'', JStr ''V/-/Decision''),
                          (''content'', JDict [(''comment'', JStr ''see the meta-review'')])]])])])
       = Inr \<lparr>forum = JStr ''n1'', note_id = JStr ''n1'', title = JStr ''T'', abstract = JNull,
              authors = [], keywords_list = [], decision = None, avg_rating = None,
              num_reviews = 0\<rparr>
   \<and> decision_gate (JDict [(''invitation'', JStr ''V/-/Meta_Review''),
                           (''content'', JDict [(''DECISION'', JStr ''Accept'')])])
   \<and> summarize exact_ops py_repr
        (JDict [(''id'', JStr ''n1''), (''forum'', JStr ''n1''),
                (''content'', JDict [(''title'', JStr ''T'')]),
                (''details'', JDict [(''directReplies'', JList [
                   JDict [(''invitation'', JStr ''V/-/Meta_Review''),
                          (''content'', JDict [(''DECISION'', JStr ''Accept'')])]])])])
       = Inr \<lparr>forum = JStr ''n1'', note_id = JStr ''n1'', title = JStr ''T'', abstract = JNull,
              authors = [], keywords_list = [], decision = None, avg_rating = None,
              num_reviews = 0\<rparr>"
  by code_simp

text \<open>
  C9, as the code has it. The rating samples of a record are, reply by reply and entry
  by entry, the values that \<open>parse_rating\<close> gives for the content keys containing
  \<open>rating\<close> case-insensitively, the entries it rejects being skipped; the review count
  is their number and the average rating, absent when there is none, the quotient of
  their sum by their number as floats give them, that is their arithmetic mean up to
  the rounding of floats. A number or a boolean is converted by \<open>float\<close> as it is,
  without any scan, and an integer too large for a finite float gives no sample. A
  string is
  scanned: the characters before the token that are neither digits nor points are
  skipped, and the token is the run of digits with at most one point that follows,
  ended by the end of the string, by a character that is neither, or by a second
  point; the sample is then \<open>float\<close> of that token. A string without digit or point
  gives no sample. The scan stops at the first character that is not collected as soon
  as anything has been collected, a lone point included.
\<close>

theorem summarize_ratings:
  assumes "summarize ops repr (JDict nt) = Inr s" and "direct_replies nt = Inr direct"
  shows "(let samples = concat (map (\<lambda>reply. rating_samples ops repr (reply_content reply)) direct)
          in num_reviews s = length samples
             \<and> avg_rating s = (if samples = [] then None
                                else Some (float_div ops (float_sum ops samples)
                                             (float_round ops (of_nat (length samples))))))
       \<and> (\<forall>pre tok rest.
             (\<forall>c \<in> set pre. \<not> py_isdigit c \<and> c \<noteq> CHR ''.'') \<and> tok \<noteq> []
             \<and> (\<forall>c \<in> set tok. py_isdigit c \<or> c = CHR ''.'') \<and> count_list tok CHR ''.'' \<le> 1
             \<and> (rest = [] \<or> (\<not> py_isdigit (hd rest) \<and> (hd rest = CHR ''.'' \<longrightarrow> CHR ''.'' \<in> set tok)))
             \<longrightarrow> parse_rating ops repr (JStr (pre @ tok @ rest)) = float_of_token ops tok)
       \<and> (\<forall>str. (\<forall>c \<in> set str. \<not> py_isdigit c \<and> c \<noteq> CHR ''.'') \<longrightarrow> parse_rating ops repr (JStr str) = None)
       \<and> (\<forall>n. parse_rating ops repr (JInt n)
                = (if float_finite ops (float_round ops (of_int n))
                   then Some (float_round ops (of_int n)) else None))
       \<and> (\<forall>r. parse_rating ops repr (JFloat r) = Some (float_round ops r))
       \<and> (\<forall>b. parse_rating ops repr (JBool b) = parse_rating ops repr (JInt (if b then 1 else 0)))"
proof -
  from summarize_loop_result [OF assms] obtain dec ratings where
    l: "summarize_replies ops repr (None, []) direct = Inr (dec, ratings)"
    and n: "num_reviews s = length ratings"
    and a: "avg_rating s = (if ratings \<noteq> [] then Some (float_div ops (float_sum ops ratings) (float_round ops (of_nat (length ratings)))) else None)"
    by blast
  from summarize_replies_effect [OF l]
  have r: "ratings = concat (map (\<lambda>reply. rating_samples ops repr (reply_content reply)) direct)"
    by simp
  have 1: "let samples = concat (map (\<lambda>reply. rating_samples ops repr (reply_content reply)) direct)
          in num_reviews s = length samples
             \<and> avg_rating s = (if samples = [] then None
                                else Some (float_div ops (float_sum ops samples)
                                             (float_round ops (of_nat (length samples)))))"
    unfolding Let_def r [symmetric] using n a by simp
  show ?thesis
  proof (intro conjI allI impI)
    show "let samples = concat (map (\<lambda>reply. rating_samples ops repr (reply_content reply)) direct)
          in num_reviews s = length samples
             \<and> avg_rating s = (if samples = [] then None
                                else Some (float_div ops (float_sum ops samples)
                                             (float_round ops (of_nat (length samples)))))"
      by (rule 1)
  next
    fix pre tok rest
    assume "(\<forall>c \<in> set pre. \<not> py_isdigit c \<and> c \<noteq> CHR ''.'') \<and> tok \<noteq> []
             \<and> (\<forall>c \<in> set tok. py_isdigit c \<or> c = CHR ''.'') \<and> count_list tok CHR ''.'' \<le> 1
             \<and> (rest = [] \<or> (\<not> py_isdigit (hd rest) \<and> (hd rest = CHR ''.'' \<longrightarrow> CHR ''.'' \<in> set tok)))"
    then show "parse_rating ops repr (JStr (pre @ tok @ rest)) = float_of_token ops tok"
      by (elim conjE) (rule parse_rating_token)
  next
    fix str
    assume "\<forall>c \<in> set str. \<not> py_isdigit c \<and> c \<noteq> CHR ''.''"
    then show "parse_rating ops repr (JStr str) = None" by (rule parse_rating_no_token)
  next
    fix n show "parse_rating ops repr (JInt n)
                = (if float_finite ops (float_round ops (of_int n))
                   then Some (float_round ops (of_int n)) else None)"
      by (simp add: float_of_int_def Let_def)
  next
    fix r show "parse_rating ops repr (JFloat r) = Some (float_round ops r)" by simp
  next
    fix b show "parse_rating ops repr (JBool b) = parse_rating ops repr (JInt (if b then 1 else 0))"
      by simp
  qed
qed

theorem summarize_ratings_witness:
  "summarize exact_ops py_repr
     (JDict [(''id'', JStr ''n1''), (''content'', JDict [(''title'', JStr ''T'')]),
             (''details'', JDict [(''directReplies'', JList [
                JDict [(''invitation'', JStr ''V/-/Official_Review''),
                       (''content'', JDict [(''Rating'', JStr ''7: Good''),
                                            (''Soundness_Rating'', JStr ''3'')])]])])])
     = Inr \<lparr>forum = JStr ''n1'', note_id = JStr ''n1'', title = JStr ''T'', abstract = JNull,
            authors = [], keywords_list = [], decision = None, avg_rating = Some 5,
            num_reviews = 2\<rparr>
   \<and> rating_samples exact_ops py_repr [(''Rating'', JStr ''7: Good''), (''Soundness_Rating'', JStr ''3'')] = [7, 3]
   \<and> num_reviews \<lparr>forum = JStr ''n1'', note_id = JStr ''n1'', title = JStr ''T'', abstract = JNull,
            authors = [], keywords_list = [], decision = None, avg_rating = Some (5 :: rat),
            num_reviews = 2\<rparr> = length [7, 3 :: rat]"
proof -
  let ?r1 = "JDict [(''invitation'', JStr ''V/-/Official_Review''),
                    (''content'', JDict [(''Rating'', JStr ''7: Good''),
                                         (''Soundness_Rating'', JStr ''3'')])]"
  let ?nt = "[(''id'', JStr ''n1''), (''content'', JDict [(''title'', JStr ''T'')]),
              (''details'', JDict [(''directReplies'', JList [?r1])])]"
  let ?s = "\<lparr>forum = JStr ''n1'', note_id = JStr ''n1'', title = JStr ''T'', abstract = JNull,
            authors = [], keywords_list = [], decision = None, avg_rating = Some 5,
            num_reviews = 2\<rparr> :: (json, json, rat) submission_summary"
  have e: "summarize exact_ops py_repr (JDict ?nt) = Inr ?s" by code_simp
  have d: "direct_replies ?nt = Inr [?r1]" by code_simp
  have r: "rating_samples exact_ops py_repr [(''Rating'', JStr ''7: Good''), (''Soundness_Rating'', JStr ''3'')] = [7, 3]"
    by code_simp
  have c: "concat (map (\<lambda>reply. rating_samples exact_ops py_repr (reply_content reply)) [?r1]) = [7, 3]"
    by code_simp
  from summarize_ratings [OF e d]
  have "let samples = concat (map (\<lambda>reply. rating_samples exact_ops py_repr (reply_content reply)) [?r1])
          in num_reviews ?s = length samples
             \<and> avg_rating ?s = (if samples = [] then None
                                else Some (float_div exact_ops (float_sum exact_ops samples)
                                             (float_round exact_ops (of_nat (length samples)))))"
    by (rule conjunct1)
  then have "num_reviews ?s = length [7, 3 :: rat]
             \<and> avg_rating ?s = (if [7, 3 :: rat] = [] then None
                                else Some (float_div exact_ops (float_sum exact_ops [7, 3 :: rat])
                                             (float_round exact_ops (of_nat (length [7, 3 :: rat])))))"
    by (simp only: Let_def c)
  then have n: "num_reviews ?s = length [7, 3 :: rat]" by (rule conjunct1)
  show ?thesis by (rule conjI [OF e conjI [OF r n]])
qed

text \<open>
  C9 as stated fails: the integer \<open>-3\<close> gives the sample \<open>-3\<close>, while the scan of its
  string form gives \<open>3\<close>; and in \<open>e.g. 6\<close> the scan stops after the first point, before
  any digit has been collected, so that the value gives no sample at all.
\<close>

theorem summarize_ratings_counterexample:
  "parse_rating exact_ops py_repr (JInt (- 3)) = Some (- 3)
   \<and> py_repr (JInt (- 3)) = ''-3''
   \<and> parse_rating exact_ops py_repr (JStr ''-3'') = Some 3
   \<and> parse_rating exact_ops py_repr (JStr ''e.g. 6'') = None"
  by code_simp

text \<open>
  C10. For a raw record whose \<open>forum\<close> entry is missing, null or the empty string, the
  summary's forum is the record's own \<open>id\<close> entry; and the record is not rejected for it:
  when \<open>summarize\<close> raises on it, it raises as well on that record with any forum put in.
\<close>

theorem summarize_forum_fallback:
  assumes "map_of nt ''forum'' = None \<or> map_of nt ''forum'' = Some JNull
           \<or> map_of nt ''forum'' = Some (JStr [])"
  shows "(\<forall>s. summarize ops repr (JDict nt) = Inr s \<longrightarrow>
             forum s = dict_get nt ''id'' \<and> note_id s = dict_get nt ''id'')
       \<and> (\<forall>e f. summarize ops repr (JDict nt) = Inl e \<longrightarrow>
             summarize ops repr (JDict ((''forum'', f) # nt)) = Inl e)"
proof (intro conjI allI impI)
  fix s assume s: "summarize ops repr (JDict nt) = Inr s"
  from assms have "\<not> truthy (dict_get nt ''forum'')"
    by (auto simp: dict_get_def)
  moreover from s have "forum s = py_or (dict_get nt ''forum'') (dict_get nt ''id'')"
    by (rule summarize_Inr)
  ultimately show "forum s = dict_get nt ''id''"
    by (simp add: py_or_def)
next
  fix s assume s: "summarize ops repr (JDict nt) = Inr s"
  from s show "note_id s = dict_get nt ''id''" by (rule summarize_Inr)
next
  fix e f assume e: "summarize ops repr (JDict nt) = Inl e"
  have c: "dict_get_default ((''forum'', f) # nt) ''content'' (JDict []) = dict_get_default nt ''content'' (JDict [])"
    by (simp add: dict_get_default_def)
  have d: "direct_replies ((''forum'', f) # nt) = direct_replies nt"
    by (simp add: direct_replies_def dict_get_default_def)
  show "summarize ops repr (JDict ((''forum'', f) # nt)) = Inl e"
  proof (cases "py_or (dict_get_default nt ''content'' (JDict [])) (JDict [])")
    case (JDict content)
    note cc = this
    show ?thesis
    proof (cases "direct_replies nt")
      case (Inl e')
      with e cc c d show ?thesis by (simp add: summarize_def Let_def)
    next
      case (Inr direct)
      note dd = this
      show ?thesis
      proof (cases "summarize_replies ops repr (None, []) direct")
        case (Inl e')
        with e cc dd c d show ?thesis by (simp add: summarize_def Let_def)
      next
        case (Inr st)
        with e cc dd show ?thesis by (simp add: summarize_def Let_def split: prod.splits)
      qed
    qed
  qed (use e c in \<open>simp_all add: summarize_def\<close>)
qed

theorem summarize_forum_fallback_witness:
  "summarize exact_ops py_repr (JDict [(''id'', JStr ''n1''), (''forum'', JStr ''''),
                            (''content'', JDict [(''title'', JStr ''T'')])])
     = Inr \<lparr>forum = JStr ''n1'', note_id = JStr ''n1'', title = JStr ''T'', abstract = JNull,
            authors = [], keywords_list = [], decision = None, avg_rating = None,
            num_reviews = 0\<rparr>
   \<and> forum \<lparr>forum = JStr ''n1'', note_id = JStr ''n1'', title = JStr ''T'', abstract = JNull,
            authors = [], keywords_list = [], decision = None, avg_rating = (None :: rat option),
            num_reviews = 0 :: nat\<rparr>
       = dict_get [(''id'', JStr ''n1''), (''forum'', JStr ''''),
                   (''content'', JDict [(''title'', JStr ''T'')])] ''id''"
proof -
  let ?nt = "[(''id'', JStr ''n1''), (''forum'', JStr ''''), (''content'', JDict [(''title'', JStr ''T'')])]"
  let ?s = "\<lparr>forum = JStr ''n1'', note_id = JStr ''n1'', title = JStr ''T'', abstract = JNull,
            authors = [], keywords_list = [], decision = None, avg_rating = None,
            num_reviews = 0\<rparr> :: (json, json, rat) submission_summary"
  have e: "summarize exact_ops py_repr (JDict ?nt) = Inr ?s" by code_simp
  have h: "map_of ?nt ''forum'' = None \<or> map_of ?nt ''forum'' = Some JNull
           \<or> map_of ?nt ''forum'' = Some (JStr [])" by simp
  from summarize_forum_fallback [OF h, of exact_ops py_repr]
  have "\<forall>s. summarize exact_ops py_repr (JDict ?nt) = Inr s \<longrightarrow>
             forum s = dict_get ?nt ''id'' \<and> note_id s = dict_get ?nt ''id''"
    by (rule conjunct1)
  then have "summarize exact_ops py_repr (JDict ?nt) = Inr ?s \<longrightarrow>
             forum ?s = dict_get ?nt ''id'' \<and> note_id ?s = dict_get ?nt ''id''"
    by (rule spec)
  then have "forum ?s = dict_get ?nt ''id'' \<and> note_id ?s = dict_get ?nt ''id''"
    using e by (rule mp)
  then have "forum ?s = dict_get ?nt ''id''" by (rule conjunct1)
  with e show ?thesis by (rule conjI)
qed

section \<open>Properties of the match cache policy\<close>

lemma match_loop_calls:
  "match_loop ratio query now d ms (pending, calls) ps = (calls', res) \<Longrightarrow>
   \<exists>new. calls' = calls @ new \<and> set new \<subseteq> p_id ` {q \<in> set ps. \<not> cache_hit ms d q}"
proof (induction ps arbitrary: pending calls)
  case Nil
  then show ?case by simp
next
  case (Cons p ps)
  show ?case
  proof (cases "cache_hit ms d p")
    case True
    with Cons.prems have "match_loop ratio query now d ms (pending, calls) ps = (calls', res)" by simp
    from Cons.IH [OF this] show ?thesis by auto
  next
    case False
    show ?thesis
    proof (cases "find_arxiv_match ratio (query (p_id p)) (paper_title p)")
      case (Inl e)
      with Cons.prems False have "calls' = calls @ [p_id p]" by simp
      with False show ?thesis by auto
    next
      case (Inr r)
      obtain aid atitle ex sc where r: "r = (aid, atitle, ex, sc)" by (cases r)
      from Cons.prems False Inr r obtain pending' where
        "match_loop ratio query now d ms (pending', calls @ [p_id p]) ps = (calls', res)"
        by (auto split: option.splits list.splits)
      from Cons.IH [OF this] obtain new where
        "calls' = (calls @ [p_id p]) @ new" "set new \<subseteq> p_id ` {q \<in> set ps. \<not> cache_hit ms d q}"
        by blast
      then have "calls' = calls @ (p_id p # new)"
        "set (p_id p # new) \<subseteq> p_id ` {q \<in> set (p # ps). \<not> cache_hit ms d q}"
        using False by auto
      then show ?thesis by blast
    qed
  qed
qed

lemma match_loop_success:
  "match_loop ratio query now d ms (pending, calls) ps = (calls', Inr pending') \<Longrightarrow>
   calls' = calls @ map p_id (filter (\<lambda>q. \<not> cache_hit ms d q) ps)
   \<and> pending' = pending @ concat (map (match_rows ratio query now) (filter (\<lambda>q. \<not> cache_hit ms d q) ps))"
proof (induction ps arbitrary: pending calls)
  case Nil
  then show ?case by simp
next
  case (Cons p ps)
  show ?case
  proof (cases "cache_hit ms d p")
    case True
    with Cons.prems have "match_loop ratio query now d ms (pending, calls) ps = (calls', Inr pending')" by simp
    from Cons.IH [OF this] True show ?thesis by simp
  next
    case False
    show ?thesis
    proof (cases "find_arxiv_match ratio (query (p_id p)) (paper_title p)")
      case (Inl e)
      with Cons.prems False show ?thesis by simp
    next
      case (Inr r)
      obtain aid atitle ex sc where r: "r = (aid, atitle, ex, sc)" by (cases r)
      from Cons.prems False Inr r have
        "match_loop ratio query now d ms (pending @ match_rows ratio query now p, calls @ [p_id p]) ps
         = (calls', Inr pending')"
        by (auto simp: match_rows_def split: option.splits list.splits)
      from Cons.IH [OF this] False show ?thesis by simp
    qed
  qed
qed

lemma insert_matches_append:
  "\<exists>ids. length ids = length pending
         \<and> insert_matches rows pending = rows @ map2 (\<lambda>m i. m\<lparr>m_id := i\<rparr>) pending ids"
proof (induction pending arbitrary: rows)
  case Nil
  then show ?case by simp
next
  case (Cons m pending)
  from Cons.IH [of "rows @ [m\<lparr>m_id := next_id (map m_id rows)\<rparr>]"] obtain ids where
    "length ids = length pending"
    "insert_matches (rows @ [m\<lparr>m_id := next_id (map m_id rows)\<rparr>]) pending
       = (rows @ [m\<lparr>m_id := next_id (map m_id rows)\<rparr>]) @ map2 (\<lambda>m i. m\<lparr>m_id := i\<rparr>) pending ids"
    by blast
  then have "length (next_id (map m_id rows) # ids) = length (m # pending)
     \<and> insert_matches rows (m # pending)
         = rows @ map2 (\<lambda>m i. m\<lparr>m_id := i\<rparr>) (m # pending) (next_id (map m_id rows) # ids)"
    by simp
  then show ?case by blast
qed

lemma filter_renumbered:
  "\<forall>m \<in> set pending. paper_id m \<noteq> k \<Longrightarrow>
   filter (\<lambda>m. paper_id m = k) (map2 (\<lambda>m i. m\<lparr>m_id := i\<rparr>) pending ids) = []"
proof (induction pending arbitrary: ids)
  case Nil
  then show ?case by simp
next
  case (Cons m pending)
  then show ?case by (cases ids) auto
qed

lemma latest_match_fold:
  "fold (\<lambda>x best. if matched_at best < matched_at x then x else best) rest m \<in> set (m # rest)
   \<and> (\<forall>x \<in> set (m # rest). matched_at x
         \<le> matched_at (fold (\<lambda>x best. if matched_at best < matched_at x then x else best) rest m))"
proof (induction rest arbitrary: m)
  case Nil
  then show ?case by simp
next
  case (Cons a rest)
  let ?m' = "if matched_at m < matched_at a then a else m"
  from Cons.IH [of ?m'] show ?case by (auto split: if_splits)
qed

lemma latest_match_most_recent:
  assumes "latest_match ms pid = Some l"
  shows "l \<in> set ms \<and> paper_id l = pid \<and> (\<forall>m \<in> set ms. paper_id m = pid \<longrightarrow> matched_at m \<le> matched_at l)"
proof -
  from assms obtain m rest where f: "filter (\<lambda>m. paper_id m = pid) ms = m # rest"
    and l: "l = fold (\<lambda>x best. if matched_at best < matched_at x then x else best) rest m"
    by (auto simp: latest_match_def split: list.splits)
  from latest_match_fold [of rest m] l have
    1: "l \<in> set (m # rest)" and 2: "\<forall>x \<in> set (m # rest). matched_at x \<le> matched_at l" by simp_all
  from 1 have "l \<in> set (filter (\<lambda>m. paper_id m = pid) ms)" by (simp only: f)
  moreover have "\<forall>x \<in> set ms. paper_id x = pid \<longrightarrow> matched_at x \<le> matched_at l"
  proof (intro ballI impI)
    fix x assume "x \<in> set ms" "paper_id x = pid"
    then have "x \<in> set (filter (\<lambda>m. paper_id m = pid) ms)" by simp
    then have "x \<in> set (m # rest)" by (simp only: f)
    with 2 show "matched_at x \<le> matched_at l" by blast
  qed
  ultimately show ?thesis by simp
qed


lemma match_rows_cases:
  obtains (none) "match_rows ratio query now q = []"
  | (row) c cs atitle ex sc where
      "find_arxiv_match ratio (query (p_id q)) (paper_title q) = Inr (Some (c # cs), atitle, ex, sc)"
      "match_rows ratio query now q
         = [\<lparr>m_id = 0, paper_id = p_id q, arxiv_id = c # cs,
             match_title = title_or atitle (paper_title q), exact = ex, score = sc,
             matched_at = now\<rparr>]"
proof (cases "find_arxiv_match ratio (query (p_id q)) (paper_title q)")
  case (Inl e)
  then have "match_rows ratio query now q = []" by (simp add: match_rows_def)
  then show ?thesis by (rule none)
next
  case (Inr r)
  obtain aid atitle ex sc where r: "r = (aid, atitle, ex, sc)" by (cases r)
  show ?thesis
  proof (cases aid)
    case None
    with Inr r have "match_rows ratio query now q = []" by (simp add: match_rows_def)
    then show ?thesis by (rule none)
  next
    case (Some a)
    show ?thesis
    proof (cases a)
      case Nil
      with Inr r Some have "match_rows ratio query now q = []" by (simp add: match_rows_def)
      then show ?thesis by (rule none)
    next
      case (Cons c cs)
      with Inr r Some show ?thesis by (intro row [of c cs atitle ex sc]) (simp_all add: match_rows_def)
    qed
  qed
qed

lemma match_rows_paper_id: "m \<in> set (match_rows ratio query now q) \<Longrightarrow> paper_id m = p_id q \<and> m_id m = 0"
  by (cases rule: match_rows_cases [of ratio query now q]) auto

lemma match_rows_nonempty:
  "match_rows ratio query now q \<noteq> [] \<Longrightarrow>
   \<exists>c cs atitle ex sc. find_arxiv_match ratio (query (p_id q)) (paper_title q) = Inr (Some (c # cs), atitle, ex, sc)"
  by (cases rule: match_rows_cases [of ratio query now q]) auto

lemma match_rows_no_identifier:
  "find_arxiv_match ratio (query (p_id q)) (paper_title q) = Inr (aid, atitle, ex, sc) \<Longrightarrow>
   aid = None \<or> aid = Some [] \<Longrightarrow> match_rows ratio query now q = []"
  by (auto simp: match_rows_def)

lemma renumber_back:
  "length ids = length pending \<Longrightarrow> \<forall>m \<in> set pending. m_id m = 0 \<Longrightarrow>
   map (\<lambda>m. m\<lparr>m_id := 0\<rparr>) (map2 (\<lambda>m i. m\<lparr>m_id := i\<rparr>) pending ids) = pending"
proof (induction pending arbitrary: ids)
  case Nil
  then show ?case by simp
next
  case (Cons m pending)
  then show ?case by (cases ids) auto
qed

lemma match_phase_error:
  "match_phase ratio query now ttl db vid = (db', calls, Inl e) \<Longrightarrow> db' = db"
  by (auto simp: match_phase_def split: prod.splits sum.splits)

lemma match_phase_calls:
  assumes "match_phase ratio query now ttl db vid = (db', calls, outcome)"
  shows "set calls \<subseteq> p_id ` {q \<in> set (papers db). venue_id q = vid \<and> \<not> cache_hit (arxiv_matches db) (now - ttl) q}"
proof -
  obtain calls' res where l: "match_loop ratio query now (now - ttl) (arxiv_matches db) ([], [])
             (filter (\<lambda>p. venue_id p = vid) (papers db)) = (calls', res)"
    by (cases "match_loop ratio query now (now - ttl) (arxiv_matches db) ([], [])
             (filter (\<lambda>p. venue_id p = vid) (papers db))")
  with assms have "calls = calls'" by (auto simp: match_phase_def split: sum.splits)
  with match_loop_calls [OF l] show ?thesis by auto
qed

lemma match_phase_success:
  assumes "match_phase ratio query now ttl db vid = (db', calls, Inr u)"
  shows "calls = map p_id (filter (\<lambda>q. \<not> cache_hit (arxiv_matches db) (now - ttl) q)
                             (filter (\<lambda>q. venue_id q = vid) (papers db)))"
    and "\<exists>ids. length ids = length (concat (map (match_rows ratio query now)
                     (filter (\<lambda>q. \<not> cache_hit (arxiv_matches db) (now - ttl) q)
                        (filter (\<lambda>q. venue_id q = vid) (papers db)))))
           \<and> arxiv_matches db' = arxiv_matches db
               @ map2 (\<lambda>m i. m\<lparr>m_id := i\<rparr>)
                   (concat (map (match_rows ratio query now)
                     (filter (\<lambda>q. \<not> cache_hit (arxiv_matches db) (now - ttl) q)
                        (filter (\<lambda>q. venue_id q = vid) (papers db))))) ids"
    and "papers db' = papers db" and "venues db' = venues db"
proof -
  obtain calls' res where l: "match_loop ratio query now (now - ttl) (arxiv_matches db) ([], [])
             (filter (\<lambda>p. venue_id p = vid) (papers db)) = (calls', res)"
    by (cases "match_loop ratio query now (now - ttl) (arxiv_matches db) ([], [])
             (filter (\<lambda>p. venue_id p = vid) (papers db))")
  with assms obtain pending where r: "res = Inr pending" and c: "calls = calls'"
    and d: "db' = db\<lparr>arxiv_matches := insert_matches (arxiv_matches db) pending\<rparr>"
    by (auto simp: match_phase_def split: sum.splits)
  from match_loop_success [OF l [unfolded r]] have
    c': "calls' = map p_id (filter (\<lambda>q. \<not> cache_hit (arxiv_matches db) (now - ttl) q)
                             (filter (\<lambda>q. venue_id q = vid) (papers db)))"
    and p: "pending = concat (map (match_rows ratio query now)
                     (filter (\<lambda>q. \<not> cache_hit (arxiv_matches db) (now - ttl) q)
                        (filter (\<lambda>q. venue_id q = vid) (papers db))))"
    by simp_all
  from c c' show "calls = map p_id (filter (\<lambda>q. \<not> cache_hit (arxiv_matches db) (now - ttl) q)
                             (filter (\<lambda>q. venue_id q = vid) (papers db)))" by simp
  from insert_matches_append [of pending "arxiv_matches db"] d
  show "\<exists>ids. length ids = length (concat (map (match_rows ratio query now)
                     (filter (\<lambda>q. \<not> cache_hit (arxiv_matches db) (now - ttl) q)
                        (filter (\<lambda>q. venue_id q = vid) (papers db)))))
           \<and> arxiv_matches db' = arxiv_matches db
               @ map2 (\<lambda>m i. m\<lparr>m_id := i\<rparr>)
                   (concat (map (match_rows ratio query now)
                     (filter (\<lambda>q. \<not> cache_hit (arxiv_matches db) (now - ttl) q)
                        (filter (\<lambda>q. venue_id q = vid) (papers db))))) ids"
    unfolding p [symmetric] by auto
  from d show "papers db' = papers db" "venues db' = venues db" by simp_all
qed

lemma match_phase_rows_of_paper:
  assumes "match_phase ratio query now ttl db vid = (db', calls, outcome)"
    and "\<forall>q \<in> set (papers db). venue_id q = vid \<and> \<not> cache_hit (arxiv_matches db) (now - ttl) q
           \<longrightarrow> (\<forall>m \<in> set (match_rows ratio query now q). paper_id m \<noteq> k)"
  shows "filter (\<lambda>m. paper_id m = k) (arxiv_matches db') = filter (\<lambda>m. paper_id m = k) (arxiv_matches db)"
proof (cases outcome)
  case (Inl e)
  with assms(1) have "db' = db" by (auto dest: match_phase_error)
  then show ?thesis by simp
next
  case (Inr u)
  let ?pend = "concat (map (match_rows ratio query now)
                     (filter (\<lambda>q. \<not> cache_hit (arxiv_matches db) (now - ttl) q)
                        (filter (\<lambda>q. venue_id q = vid) (papers db))))"
  from match_phase_success(2) [OF assms(1) [unfolded Inr]] obtain ids where
    a: "arxiv_matches db' = arxiv_matches db @ map2 (\<lambda>m i. m\<lparr>m_id := i\<rparr>) ?pend ids"
    by blast
  have "\<forall>m \<in> set ?pend. paper_id m \<noteq> k"
  proof
    fix m assume "m \<in> set ?pend"
    then obtain q where "q \<in> set (papers db)" "venue_id q = vid"
      "\<not> cache_hit (arxiv_matches db) (now - ttl) q" "m \<in> set (match_rows ratio query now q)"
      by auto
    with assms(2) show "paper_id m \<noteq> k" by blast
  qed
  then have "filter (\<lambda>m. paper_id m = k) (map2 (\<lambda>m i. m\<lparr>m_id := i\<rparr>) ?pend ids) = []"
    by (rule filter_renumbered)
  with a show ?thesis by simp
qed

lemma latest_match_filter:
  assumes "filter (\<lambda>m. paper_id m = k) ms' = filter (\<lambda>m. paper_id m = k) ms"
  shows "latest_match ms' k = latest_match ms k"
  by (simp only: latest_match_def assms)

text \<open>
  C3. In the matching phase, a Paper whose most recent stored match (the one of greatest
  \<open>matched_at\<close>) is strictly more recent than \<open>now - ttl\<close> is a cache hit: the matcher
  is not invoked for it and the matches stored for it are unchanged, whatever the
  outcome of the phase. A Paper of the venue with no stored match, or whose most recent
  one is not more recent than \<open>now - ttl\<close>, is a cache miss: a phase that completes has
  invoked the matcher for it. With the default of 14 days, a match 13 days old is a hit
  and one 15 days old a miss.
\<close>

theorem match_phase_cache_hit:
  assumes "match_phase ratio query now ttl db vid = (db', calls, outcome)"
  shows "(\<forall>latest. latest_match (arxiv_matches db) (p_id p) = Some latest \<and> now - ttl < matched_at latest
            \<longrightarrow> p_id p \<notin> set calls
                \<and> filter (\<lambda>m. paper_id m = p_id p) (arxiv_matches db')
                    = filter (\<lambda>m. paper_id m = p_id p) (arxiv_matches db)
                \<and> (\<forall>m \<in> set (arxiv_matches db). paper_id m = p_id p \<longrightarrow> matched_at m \<le> matched_at latest))
       \<and> ((latest_match (arxiv_matches db) (p_id p) = None
            \<or> (\<exists>latest. latest_match (arxiv_matches db) (p_id p) = Some latest
                  \<and> matched_at latest \<le> now - ttl))
           \<and> p \<in> set (papers db) \<and> venue_id p = vid \<and> outcome = Inr ()
            \<longrightarrow> p_id p \<in> set calls)"
proof (intro conjI allI impI)
  fix latest
  assume h: "latest_match (arxiv_matches db) (p_id p) = Some latest \<and> now - ttl < matched_at latest"
  then have hit: "cache_hit (arxiv_matches db) (now - ttl) p" by (simp add: cache_hit_def)
  then have hits: "\<And>q. p_id q = p_id p \<Longrightarrow> cache_hit (arxiv_matches db) (now - ttl) q"
    by (simp add: cache_hit_def)
  show "p_id p \<notin> set calls"
  proof
    assume "p_id p \<in> set calls"
    with match_phase_calls [OF assms] obtain q where
      "\<not> cache_hit (arxiv_matches db) (now - ttl) q" "p_id p = p_id q" by blast
    with hits [of q] show False by simp
  qed
  have "\<forall>q \<in> set (papers db). venue_id q = vid \<and> \<not> cache_hit (arxiv_matches db) (now - ttl) q
           \<longrightarrow> (\<forall>m \<in> set (match_rows ratio query now q). paper_id m \<noteq> p_id p)"
  proof (intro ballI impI)
    fix q m
    assume q: "venue_id q = vid \<and> \<not> cache_hit (arxiv_matches db) (now - ttl) q"
      and m: "m \<in> set (match_rows ratio query now q)"
    from m have "paper_id m = p_id q" by (simp add: match_rows_paper_id)
    with q hits [of q] show "paper_id m \<noteq> p_id p" by auto
  qed
  then show "filter (\<lambda>m. paper_id m = p_id p) (arxiv_matches db')
          = filter (\<lambda>m. paper_id m = p_id p) (arxiv_matches db)"
    by (rule match_phase_rows_of_paper [OF assms])
  from h latest_match_most_recent [of "arxiv_matches db" "p_id p" latest]
  show "\<forall>m \<in> set (arxiv_matches db). paper_id m = p_id p \<longrightarrow> matched_at m \<le> matched_at latest"
    by simp
next
  assume h: "(latest_match (arxiv_matches db) (p_id p) = None
            \<or> (\<exists>latest. latest_match (arxiv_matches db) (p_id p) = Some latest
                  \<and> matched_at latest \<le> now - ttl))
           \<and> p \<in> set (papers db) \<and> venue_id p = vid \<and> outcome = Inr ()"
  then have miss: "\<not> cache_hit (arxiv_matches db) (now - ttl) p"
    by (auto simp: cache_hit_def)
  from h have o: "outcome = Inr ()" by (elim conjE)
  have "match_phase ratio query now ttl db vid = (db', calls, Inr ())"
    using assms unfolding o .
  note c = match_phase_success(1) [OF this]
  from h miss have "p \<in> set (filter (\<lambda>q. \<not> cache_hit (arxiv_matches db) (now - ttl) q)
                             (filter (\<lambda>q. venue_id q = vid) (papers db)))" by simp
  then have "p_id p \<in> p_id ` set (filter (\<lambda>q. \<not> cache_hit (arxiv_matches db) (now - ttl) q)
                             (filter (\<lambda>q. venue_id q = vid) (papers db)))" by (rule imageI)
  then show "p_id p \<in> set calls" unfolding c by simp
qed


theorem match_phase_cache_hit_witness:
  "match_phase (\<lambda>a b. 0) (\<lambda>k t. Inr []) 8640000 arxiv_ttl_default
     \<lparr>venues = [\<lparr>v_id = 1, group_id = ''V'', venue_name = ''V'', year = None, added_at = 0\<rparr>],
      papers = [\<lparr>p_id = 1, venue_id = 1, openreview_forum = ''F1'', openreview_note = ''F1'',
                 paper_title = ''Foo Bar'', paper_abstract = None, paper_authors = [],
                 paper_keywords = [], paper_decision = None, paper_avg_rating = None,
                 paper_num_reviews = 0, last_refreshed = 0\<rparr>,
                \<lparr>p_id = 2, venue_id = 1, openreview_forum = ''F2'', openreview_note = ''F2'',
                 paper_title = ''Other'', paper_abstract = None, paper_authors = [],
                 paper_keywords = [], paper_decision = None, paper_avg_rating = None,
                 paper_num_reviews = 0, last_refreshed = 0\<rparr>],
      arxiv_matches = [\<lparr>m_id = 1, paper_id = 1, arxiv_id = ''1111.1111'', match_title = ''Foo Bar'',
                         exact = True, score = 1, matched_at = 8640000 - 13 * 86400\<rparr>,
                       \<lparr>m_id = 2, paper_id = 2, arxiv_id = ''2222.2222'', match_title = ''Other'',
                         exact = True, score = 1, matched_at = 8640000 - 15 * 86400\<rparr>]\<rparr> 1
   = (\<lparr>venues = [\<lparr>v_id = 1, group_id = ''V'', venue_name = ''V'', year = None, added_at = 0\<rparr>],
      papers = [\<lparr>p_id = 1, venue_id = 1, openreview_forum = ''F1'', openreview_note = ''F1'',
                 paper_title = ''Foo Bar'', paper_abstract = None, paper_authors = [],
                 paper_keywords = [], paper_decision = None, paper_avg_rating = None,
                 paper_num_reviews = 0, last_refreshed = 0\<rparr>,
                \<lparr>p_id = 2, venue_id = 1, openreview_forum = ''F2'', openreview_note = ''F2'',
                 paper_title = ''Other'', paper_abstract = None, paper_authors = [],
                 paper_keywords = [], paper_decision = None, paper_avg_rating = None,
                 paper_num_reviews = 0, last_refreshed = 0\<rparr>],
      arxiv_matches = [\<lparr>m_id = 1, paper_id = 1, arxiv_id = ''1111.1111'', match_title = ''Foo Bar'',
                         exact = True, score = 1, matched_at = 8640000 - 13 * 86400\<rparr>,
                       \<lparr>m_id = 2, paper_id = 2, arxiv_id = ''2222.2222'', match_title = ''Other'',
                         exact = True, score = 1, matched_at = 8640000 - 15 * 86400\<rparr>]\<rparr>,
      [2], Inr ())
   \<and> (1 :: nat) \<notin> set [2]
   \<and> (2 :: nat) \<in> set [2]"
proof -
  let ?p1 = "\<lparr>p_id = 1, venue_id = 1, openreview_forum = ''F1'', openreview_note = ''F1'',
                 paper_title = ''Foo Bar'', paper_abstract = None, paper_authors = [],
                 paper_keywords = [], paper_decision = None, paper_avg_rating = None,
                 paper_num_reviews = 0, last_refreshed = 0\<rparr>"
  let ?p2 = "\<lparr>p_id = 2, venue_id = 1, openreview_forum = ''F2'', openreview_note = ''F2'',
                 paper_title = ''Other'', paper_abstract = None, paper_authors = [],
                 paper_keywords = [], paper_decision = None, paper_avg_rating = None,
                 paper_num_reviews = 0, last_refreshed = 0\<rparr>"
  let ?m1 = "\<lparr>m_id = 1, paper_id = 1, arxiv_id = ''1111.1111'', match_title = ''Foo Bar'',
                         exact = True, score = 1, matched_at = 8640000 - 13 * 86400\<rparr>"
  let ?m2 = "\<lparr>m_id = 2, paper_id = 2, arxiv_id = ''2222.2222'', match_title = ''Other'',
                         exact = True, score = 1, matched_at = 8640000 - 15 * 86400\<rparr>"
  let ?db = "\<lparr>venues = [\<lparr>v_id = 1, group_id = ''V'', venue_name = ''V'', year = None, added_at = 0\<rparr>],
      papers = [?p1, ?p2], arxiv_matches = [?m1, ?m2]\<rparr>"
  have run: "match_phase (\<lambda>a b. 0) (\<lambda>k t. Inr []) 8640000 arxiv_ttl_default ?db 1 = (?db, [2], Inr ())"
    by code_simp
  have l1: "latest_match (arxiv_matches ?db) (p_id ?p1) = Some ?m1
            \<and> 8640000 - arxiv_ttl_default < matched_at ?m1"
    by code_simp
  have l2: "(latest_match (arxiv_matches ?db) (p_id ?p2) = None
            \<or> (\<exists>latest. latest_match (arxiv_matches ?db) (p_id ?p2) = Some latest
                  \<and> matched_at latest \<le> 8640000 - arxiv_ttl_default))
           \<and> ?p2 \<in> set (papers ?db) \<and> venue_id ?p2 = 1 \<and> Inr () = (Inr () :: error + unit)"
  proof -
    have "latest_match (arxiv_matches ?db) (p_id ?p2) = Some ?m2
          \<and> matched_at ?m2 \<le> 8640000 - arxiv_ttl_default" by code_simp
    then show ?thesis by simp
  qed
  from match_phase_cache_hit [OF run, of ?p1] l1 have "p_id ?p1 \<notin> set [2 :: nat]" by blast
  then have a: "(1 :: nat) \<notin> set [2]" by simp
  from match_phase_cache_hit [OF run, of ?p2] l2 have "p_id ?p2 \<in> set [2 :: nat]" by blast
  then have b: "(2 :: nat) \<in> set [2]" by simp
  show ?thesis by (rule conjI [OF run conjI [OF a b]])
qed


lemma match_phase_invoked:
  assumes "match_phase ratio query now ttl db vid = (db', calls, Inr u)"
    and "p \<in> set (papers db)" and "venue_id p = vid"
    and "\<not> cache_hit (arxiv_matches db) (now - ttl) p"
  shows "p_id p \<in> set calls"
proof -
  note c = match_phase_success(1) [OF assms(1)]
  from assms(2-4) have "p \<in> set (filter (\<lambda>q. \<not> cache_hit (arxiv_matches db) (now - ttl) q)
                             (filter (\<lambda>q. venue_id q = vid) (papers db)))" by simp
  then have "p_id p \<in> p_id ` set (filter (\<lambda>q. \<not> cache_hit (arxiv_matches db) (now - ttl) q)
                             (filter (\<lambda>q. venue_id q = vid) (papers db)))" by (rule imageI)
  then show ?thesis unfolding c by simp
qed

lemma distinct_p_id_eq:
  assumes "distinct (map p_id ps)" and "p \<in> set ps" and "q \<in> set ps" and "p_id q = p_id p"
  shows "q = p"
proof -
  from assms(1) have "inj_on p_id (set ps)" by (simp add: distinct_map)
  then show ?thesis using assms(4) assms(3) assms(2) by (rule inj_onD)
qed

text \<open>
  C4. In a matching phase that completes, the rows added to the match table are, up to
  their keys, the rows \<open>match_rows\<close> gives for the Papers of the venue that miss the
  cache, in order, and a Paper gets a row only if the matcher returned a non-empty
  identifier for it. When the matcher returns no identifier for a Paper (none, or the
  empty string), the matches stored for that Paper are unchanged; if it had no stored
  match it still has none, so that every later phase that completes on these matches,
  whatever its instant and its time to live, invokes the matcher for that Paper again.
\<close>

theorem match_phase_no_identifier:
  assumes "match_phase ratio query now ttl db vid = (db', calls, Inr ())"
  shows "(\<exists>new. arxiv_matches db' = arxiv_matches db @ new
            \<and> map (\<lambda>m. m\<lparr>m_id := 0\<rparr>) new
                = concat (map (match_rows ratio query now)
                    (filter (\<lambda>q. \<not> cache_hit (arxiv_matches db) (now - ttl) q)
                       (filter (\<lambda>q. venue_id q = vid) (papers db)))))
       \<and> (\<forall>q. match_rows ratio query now q \<noteq> [] \<longrightarrow>
             (\<exists>c cs atitle ex sc.
                find_arxiv_match ratio (query (p_id q)) (paper_title q)
                  = Inr (Some (c # cs), atitle, ex, sc)))
       \<and> (\<forall>p aid atitle ex sc.
             distinct (map p_id (papers db)) \<and> p \<in> set (papers db)
             \<and> find_arxiv_match ratio (query (p_id p)) (paper_title p) = Inr (aid, atitle, ex, sc)
             \<and> (aid = None \<or> aid = Some [])
             \<longrightarrow> filter (\<lambda>m. paper_id m = p_id p) (arxiv_matches db')
                   = filter (\<lambda>m. paper_id m = p_id p) (arxiv_matches db)
                 \<and> (latest_match (arxiv_matches db) (p_id p) = None \<longrightarrow>
                      latest_match (arxiv_matches db') (p_id p) = None
                      \<and> (\<forall>ratio' query' now' ttl' db2 db3 calls2 p'.
                            arxiv_matches db2 = arxiv_matches db' \<and> p' \<in> set (papers db2)
                            \<and> p_id p' = p_id p
                            \<and> match_phase ratio' query' now' ttl' db2 (venue_id p') = (db3, calls2, Inr ())
                            \<longrightarrow> p_id p \<in> set calls2)))"
proof (intro conjI allI impI)
  let ?pend = "concat (map (match_rows ratio query now)
                    (filter (\<lambda>q. \<not> cache_hit (arxiv_matches db) (now - ttl) q)
                       (filter (\<lambda>q. venue_id q = vid) (papers db))))"
  from match_phase_success(2) [OF assms] obtain ids where
    len: "length ids = length ?pend"
    and a: "arxiv_matches db' = arxiv_matches db @ map2 (\<lambda>m i. m\<lparr>m_id := i\<rparr>) ?pend ids"
    by blast
  have "\<forall>m \<in> set ?pend. m_id m = 0"
  proof
    fix m assume "m \<in> set ?pend"
    then obtain q where "m \<in> set (match_rows ratio query now q)" by auto
    then show "m_id m = 0" by (simp add: match_rows_paper_id)
  qed
  with len have "map (\<lambda>m. m\<lparr>m_id := 0\<rparr>) (map2 (\<lambda>m i. m\<lparr>m_id := i\<rparr>) ?pend ids) = ?pend"
    by (rule renumber_back)
  with a show "\<exists>new. arxiv_matches db' = arxiv_matches db @ new
            \<and> map (\<lambda>m. m\<lparr>m_id := 0\<rparr>) new = ?pend"
    by blast
next
  fix q assume "match_rows ratio query now q \<noteq> []"
  then show "\<exists>c cs atitle ex sc.
                find_arxiv_match ratio (query (p_id q)) (paper_title q)
                  = Inr (Some (c # cs), atitle, ex, sc)"
    by (rule match_rows_nonempty)
next
  fix p aid atitle ex sc
  assume h: "distinct (map p_id (papers db)) \<and> p \<in> set (papers db)
             \<and> find_arxiv_match ratio (query (p_id p)) (paper_title p) = Inr (aid, atitle, ex, sc)
             \<and> (aid = None \<or> aid = Some [])"
  then have none: "match_rows ratio query now p = []"
    by (elim conjE) (rule match_rows_no_identifier)
  have "\<forall>q \<in> set (papers db). venue_id q = vid \<and> \<not> cache_hit (arxiv_matches db) (now - ttl) q
           \<longrightarrow> (\<forall>m \<in> set (match_rows ratio query now q). paper_id m \<noteq> p_id p)"
  proof (intro ballI impI)
    fix q m
    assume q: "q \<in> set (papers db)" and m: "m \<in> set (match_rows ratio query now q)"
    from m have pm: "paper_id m = p_id q" by (simp add: match_rows_paper_id)
    show "paper_id m \<noteq> p_id p"
    proof
      assume "paper_id m = p_id p"
      with pm have "p_id q = p_id p" by simp
      with h q have "q = p" by (intro distinct_p_id_eq [of "papers db"]) simp_all
      with m none show False by simp
    qed
  qed
  then show f: "filter (\<lambda>m. paper_id m = p_id p) (arxiv_matches db')
                   = filter (\<lambda>m. paper_id m = p_id p) (arxiv_matches db)"
    by (rule match_phase_rows_of_paper [OF assms])
  {
    assume n: "latest_match (arxiv_matches db) (p_id p) = None"
    from latest_match_filter [OF f] n
    show n': "latest_match (arxiv_matches db') (p_id p) = None" by simp
    fix ratio' query' now' ttl' db2 db3 calls2 p'
    assume s: "arxiv_matches db2 = arxiv_matches db' \<and> p' \<in> set (papers db2)
                 \<and> p_id p' = p_id p
                 \<and> match_phase ratio' query' now' ttl' db2 (venue_id p') = (db3, calls2, Inr ())"
    with n' have "\<not> cache_hit (arxiv_matches db2) (now' - ttl') p'"
      by (simp add: cache_hit_def)
    moreover from s have "match_phase ratio' query' now' ttl' db2 (venue_id p') = (db3, calls2, Inr ())"
      and "p' \<in> set (papers db2)" by simp_all
    ultimately have "p_id p' \<in> set calls2"
      by (intro match_phase_invoked [of ratio' query' now' ttl' db2 "venue_id p'" db3 calls2 "()" p']) simp_all
    with s show "p_id p \<in> set calls2" by simp
  }
qed


theorem match_phase_no_identifier_witness:
  "match_phase (\<lambda>a b. 0) (\<lambda>k t. Inr []) 100 arxiv_ttl_default
     \<lparr>venues = [\<lparr>v_id = 1, group_id = ''V'', venue_name = ''V'', year = None, added_at = 0\<rparr>],
      papers = [\<lparr>p_id = 1, venue_id = 1, openreview_forum = ''F1'', openreview_note = ''F1'',
                 paper_title = ''Foo Bar'', paper_abstract = None, paper_authors = [],
                 paper_keywords = [], paper_decision = None, paper_avg_rating = None,
                 paper_num_reviews = 0, last_refreshed = 0\<rparr>],
      arxiv_matches = []\<rparr> 1
   = (\<lparr>venues = [\<lparr>v_id = 1, group_id = ''V'', venue_name = ''V'', year = None, added_at = 0\<rparr>],
      papers = [\<lparr>p_id = 1, venue_id = 1, openreview_forum = ''F1'', openreview_note = ''F1'',
                 paper_title = ''Foo Bar'', paper_abstract = None, paper_authors = [],
                 paper_keywords = [], paper_decision = None, paper_avg_rating = None,
                 paper_num_reviews = 0, last_refreshed = 0\<rparr>],
      arxiv_matches = []\<rparr>,
      [1], Inr ())
   \<and> find_arxiv_match (\<lambda>a b. 0) (\<lambda>t. Inr []) ''Foo Bar'' = Inr (None, None, False, 0)
   \<and> (1 :: nat) \<in> set [1]"
proof -
  let ?p = "\<lparr>p_id = 1, venue_id = 1, openreview_forum = ''F1'', openreview_note = ''F1'',
                 paper_title = ''Foo Bar'', paper_abstract = None, paper_authors = [],
                 paper_keywords = [], paper_decision = None, paper_avg_rating = None,
                 paper_num_reviews = 0, last_refreshed = 0\<rparr>"
  let ?db = "\<lparr>venues = [\<lparr>v_id = 1, group_id = ''V'', venue_name = ''V'', year = None, added_at = 0\<rparr>],
      papers = [?p], arxiv_matches = []\<rparr>"
  let ?r = "\<lambda>(a :: string) (b :: string). 0 :: rat"
  let ?q = "\<lambda>(k :: nat) (t :: string). Inr [] :: error + (string \<times> string) list"
  have run: "match_phase ?r ?q 100 arxiv_ttl_default ?db 1 = (?db, [1], Inr ())"
    by code_simp
  have fm: "find_arxiv_match ?r (\<lambda>t. Inr []) ''Foo Bar'' = Inr (None, None, False, 0)"
    by code_simp
  have h: "distinct (map p_id (papers ?db)) \<and> ?p \<in> set (papers ?db)
           \<and> find_arxiv_match ?r (?q (p_id ?p)) (paper_title ?p) = Inr (None, None, False, 0)
           \<and> ((None :: string option) = None \<or> (None :: string option) = Some [])"
    using fm by simp
  have n: "latest_match (arxiv_matches ?db) (p_id ?p) = None" by code_simp
  have s: "arxiv_matches ?db = arxiv_matches ?db \<and> ?p \<in> set (papers ?db) \<and> p_id ?p = p_id ?p
           \<and> match_phase ?r ?q 100 arxiv_ttl_default ?db (venue_id ?p) = (?db, [1], Inr ())"
    using run by simp
  from match_phase_no_identifier [OF run] have
    "\<forall>p aid atitle ex sc.
             distinct (map p_id (papers ?db)) \<and> p \<in> set (papers ?db)
             \<and> find_arxiv_match ?r (?q (p_id p)) (paper_title p) = Inr (aid, atitle, ex, sc)
             \<and> (aid = None \<or> aid = Some [])
             \<longrightarrow> filter (\<lambda>m. paper_id m = p_id p) (arxiv_matches ?db)
                   = filter (\<lambda>m. paper_id m = p_id p) (arxiv_matches ?db)
                 \<and> (latest_match (arxiv_matches ?db) (p_id p) = None \<longrightarrow>
                      latest_match (arxiv_matches ?db) (p_id p) = None
                      \<and> (\<forall>ratio' query' now' ttl' db2 db3 calls2 p'.
                            arxiv_matches db2 = arxiv_matches ?db \<and> p' \<in> set (papers db2)
                            \<and> p_id p' = p_id p
                            \<and> match_phase ratio' query' now' ttl' db2 (venue_id p') = (db3, calls2, Inr ())
                            \<longrightarrow> p_id p \<in> set calls2))"
    by (elim conjE)
  from this [rule_format, OF h, THEN conjunct2, rule_format, OF n, THEN conjunct2, rule_format, OF s]
  have "p_id ?p \<in> set [1 :: nat]" .
  then have c: "(1 :: nat) \<in> set [1]" by simp
  show ?thesis by (rule conjI [OF run conjI [OF fm c]])
qed

section \<open>Properties of the upsert\<close>

lemma overwrite_paper_keys [simp]:
  "p_id (overwrite_paper now s p) = p_id p"
  "venue_id (overwrite_paper now s p) = venue_id p"
  "openreview_forum (overwrite_paper now s p) = openreview_forum p"
  "openreview_note (overwrite_paper now s p) = openreview_note p"
  "last_refreshed (overwrite_paper now s p) = now"
  by (simp_all add: overwrite_paper_def)

lemma overwrite_paper_twice:
  "overwrite_paper now s' (overwrite_paper now s p) = overwrite_paper now s' p"
  by (simp add: overwrite_paper_def)

lemma update_first_unique:
  "distinct (map g xs) \<Longrightarrow> update_first (\<lambda>x. g x = k) f xs = map (\<lambda>x. if g x = k then f x else x) xs"
proof (induction xs)
  case Nil
  then show ?case by simp
next
  case (Cons x xs)
  show ?case
  proof (cases "g x = k")
    case True
    with Cons.prems have "k \<notin> g ` set xs" by simp
    then have "\<forall>y \<in> set xs. g y \<noteq> k" by blast
    then have "map (\<lambda>x. if g x = k then f x else x) xs = xs" by (induction xs) auto
    with True show ?thesis by simp
  next
    case False
    with Cons show ?thesis by simp
  qed
qed

lemma find_None_forum: "(find (\<lambda>p. g p = k) xs = None) = (k \<notin> g ` set xs)"
  by (induction xs) auto

lemma find_snoc:
  "find P (xs @ [x]) = (case find P xs of None \<Rightarrow> (if P x then Some x else None) | Some y \<Rightarrow> Some y)"
  by (induction xs) auto

lemma overwritten_forum [simp]: "openreview_forum (overwritten now subs p) = openreview_forum p"
  by (simp add: overwritten_def split: option.splits)

lemma overwritten_Cons:
  "overwritten now subs (if openreview_forum p = forum s then overwrite_paper now s p else p)
   = overwritten now (s # subs) p"
  by (auto simp: overwritten_def find_snoc overwrite_paper_twice split: option.splits)

lemma upsert_loop_result:
  "distinct (map openreview_forum rows) \<Longrightarrow>
   upsert_loop now vid (rows, pending) subs
     = (map (overwritten now subs) rows,
        pending @ map (new_paper now vid)
                    (filter (\<lambda>s. forum s \<notin> openreview_forum ` set rows) subs))"
proof (induction subs arbitrary: rows pending)
  case Nil
  then show ?case by (simp add: overwritten_def)
next
  case (Cons s subs)
  show ?case
  proof (cases "find (\<lambda>p. openreview_forum p = forum s) rows")
    case None
    then have nin: "forum s \<notin> openreview_forum ` set rows" by (simp add: find_None_forum)
    then have same: "map (overwritten now (s # subs)) rows = map (overwritten now subs) rows"
      by (auto simp: overwritten_def find_snoc split: option.splits)
    from None have "upsert_loop now vid (rows, pending) (s # subs)
        = upsert_loop now vid (rows, pending @ [new_paper now vid s]) subs" by simp
    also have "\<dots> = (map (overwritten now subs) rows,
        (pending @ [new_paper now vid s]) @ map (new_paper now vid)
                    (filter (\<lambda>s. forum s \<notin> openreview_forum ` set rows) subs))"
      by (rule Cons.IH [OF Cons.prems])
    finally show ?thesis using nin same by simp
  next
    case (Some found)
    then have "find (\<lambda>p. openreview_forum p = forum s) rows \<noteq> None" by simp
    then have mem: "forum s \<in> openreview_forum ` set rows" by (simp add: find_None_forum)
    let ?rows1 = "map (\<lambda>p. if openreview_forum p = forum s then overwrite_paper now s p else p) rows"
    have u: "update_first (\<lambda>p. openreview_forum p = forum s) (overwrite_paper now s) rows = ?rows1"
      using Cons.prems by (rule update_first_unique)
    have f1: "map openreview_forum ?rows1 = map openreview_forum rows" by (induction rows) auto
    have d1: "distinct (map openreview_forum ?rows1)" unfolding f1 by (rule Cons.prems)
    from f1 have s1: "openreview_forum ` set ?rows1 = openreview_forum ` set rows"
      by (metis list.set_map)
    from Some have "upsert_loop now vid (rows, pending) (s # subs)
        = upsert_loop now vid (?rows1, pending) subs" by (simp add: u)
    also have "\<dots> = (map (overwritten now subs) ?rows1,
        pending @ map (new_paper now vid)
                    (filter (\<lambda>s. forum s \<notin> openreview_forum ` set ?rows1) subs))"
      by (rule Cons.IH [OF d1])
    also have "map (overwritten now subs) ?rows1 = map (overwritten now (s # subs)) rows"
      by (simp add: overwritten_Cons comp_def)
    finally show ?thesis using mem by (simp only: s1) simp
  qed
qed

lemma insert_papers_append:
  "\<exists>ids. length ids = length pending
         \<and> insert_papers rows pending = rows @ map2 (\<lambda>p i. p\<lparr>p_id := i\<rparr>) pending ids"
proof (induction pending arbitrary: rows)
  case Nil
  then show ?case by simp
next
  case (Cons p pending)
  from Cons.IH [of "rows @ [p\<lparr>p_id := next_id (map p_id rows)\<rparr>]"] obtain ids where
    "length ids = length pending"
    "insert_papers (rows @ [p\<lparr>p_id := next_id (map p_id rows)\<rparr>]) pending
       = (rows @ [p\<lparr>p_id := next_id (map p_id rows)\<rparr>]) @ map2 (\<lambda>p i. p\<lparr>p_id := i\<rparr>) pending ids"
    by blast
  then have "length (next_id (map p_id rows) # ids) = length (p # pending)
     \<and> insert_papers rows (p # pending)
         = rows @ map2 (\<lambda>p i. p\<lparr>p_id := i\<rparr>) (p # pending) (next_id (map p_id rows) # ids)"
    by simp
  then show ?case by blast
qed

lemma renumber_papers_back:
  "length ids = length pending \<Longrightarrow> \<forall>p \<in> set pending. p_id p = 0 \<Longrightarrow>
   map (\<lambda>p. p\<lparr>p_id := 0\<rparr>) (map2 (\<lambda>p i. p\<lparr>p_id := i\<rparr>) pending ids) = pending"
proof (induction pending arbitrary: ids)
  case Nil
  then show ?case by simp
next
  case (Cons p pending)
  then show ?case by (cases ids) auto
qed

lemma upsert_phase_papers:
  assumes "distinct (map openreview_forum (papers db))"
  shows "\<exists>new. papers (upsert_phase now vid db subs) = map (overwritten now subs) (papers db) @ new
           \<and> map (\<lambda>p. p\<lparr>p_id := 0\<rparr>) new
               = map (new_paper now vid)
                   (filter (\<lambda>s. forum s \<notin> openreview_forum ` set (papers db)) subs)"
proof -
  let ?pend = "map (new_paper now vid) (filter (\<lambda>s. forum s \<notin> openreview_forum ` set (papers db)) subs)"
  have p: "papers (upsert_phase now vid db subs)
           = insert_papers (map (overwritten now subs) (papers db)) ?pend"
    by (simp add: upsert_phase_def upsert_loop_result [OF assms])
  from insert_papers_append [of ?pend "map (overwritten now subs) (papers db)"] obtain ids where
    len: "length ids = length ?pend"
    and i: "insert_papers (map (overwritten now subs) (papers db)) ?pend
        = map (overwritten now subs) (papers db) @ map2 (\<lambda>p i. p\<lparr>p_id := i\<rparr>) ?pend ids"
    by blast
  have "\<forall>p \<in> set ?pend. p_id p = 0" by (auto simp: new_paper_def)
  with len have "map (\<lambda>p. p\<lparr>p_id := 0\<rparr>) (map2 (\<lambda>p i. p\<lparr>p_id := i\<rparr>) ?pend ids) = ?pend"
    by (rule renumber_papers_back)
  with p i show ?thesis by auto
qed


lemma ensure_venue_frame:
  assumes "ensure_venue now db gid nm yr = (db1, v)"
  shows "papers db1 = papers db" and "arxiv_matches db1 = arxiv_matches db"
  using assms by (auto simp: ensure_venue_def Let_def split: option.splits)

lemma upsert_phase_frame:
  "venues (upsert_phase now vid db subs) = venues db"
  "arxiv_matches (upsert_phase now vid db subs) = arxiv_matches db"
  by (simp_all add: upsert_phase_def split: prod.splits)

lemma match_phase_frame:
  assumes "match_phase ratio query now ttl db vid = (db', calls, outcome)"
  shows "papers db' = papers db" and "venues db' = venues db"
proof -
  have "papers db' = papers db \<and> venues db' = venues db"
  proof (cases outcome)
    case (Inl e)
    with assms have "db' = db" by (auto dest: match_phase_error)
    then show ?thesis by simp
  next
    case (Inr u)
    with assms match_phase_success(3,4) [of ratio query now ttl db vid db' calls u]
    show ?thesis by simp
  qed
  then show "papers db' = papers db" and "venues db' = venues db" by simp_all
qed

lemma ingest_group_stores:
  assumes "fetch gid = Inr subs"
    and "ingest_group ratio query fetch now ttl db gid nm yr with_arxiv = (db', calls, outcome)"
  shows "papers db' = papers (upsert_phase now (v_id (snd (ensure_venue now db gid nm yr)))
                               (fst (ensure_venue now db gid nm yr)) subs)"
    and "venues db' = venues (fst (ensure_venue now db gid nm yr))"
proof -
  obtain db1 v where ev: "ensure_venue now db gid nm yr = (db1, v)"
    by (cases "ensure_venue now db gid nm yr")
  let ?db2 = "upsert_phase now (v_id v) db1 subs"
  have "papers db' = papers ?db2 \<and> venues db' = venues db1"
  proof (cases with_arxiv)
    case False
    with assms ev have "db' = ?db2" by (simp add: ingest_group_def Let_def)
    then show ?thesis by (simp add: upsert_phase_frame)
  next
    case True
    obtain db3 calls3 o3 where mp: "match_phase ratio query now ttl ?db2 (v_id v) = (db3, calls3, o3)"
      by (cases "match_phase ratio query now ttl ?db2 (v_id v)") auto
    with assms ev True have "db' = db3"
      by (cases o3) (simp_all add: ingest_group_def Let_def)
    with match_phase_frame [OF mp] show ?thesis by (simp add: upsert_phase_frame)
  qed
  with ev show "papers db' = papers (upsert_phase now (v_id (snd (ensure_venue now db gid nm yr)))
                               (fst (ensure_venue now db gid nm yr)) subs)"
    and "venues db' = venues (fst (ensure_venue now db gid nm yr))" by simp_all
qed

lemma overwritten_other:
  "openreview_forum p \<notin> forum ` set subs \<Longrightarrow> overwritten now subs p = p"
proof -
  assume "openreview_forum p \<notin> forum ` set subs"
  then have "openreview_forum p \<notin> forum ` set (rev subs)" by simp
  then have "find (\<lambda>s. forum s = openreview_forum p) (rev subs) = None"
    by (simp add: find_None_forum)
  then show ?thesis by (simp add: overwritten_def)
qed

lemma overwritten_keys:
  "p_id (overwritten now subs p) = p_id p"
  "venue_id (overwritten now subs p) = venue_id p"
  "openreview_note (overwritten now subs p) = openreview_note p"
  by (simp_all add: overwritten_def split: option.splits)

lemma new_rows_forums:
  assumes "map (\<lambda>p. p\<lparr>p_id := 0\<rparr>) new = map (new_paper now vid) ss"
  shows "map openreview_forum new = map forum ss"
proof -
  have "map openreview_forum new = map openreview_forum (map (\<lambda>p. p\<lparr>p_id := 0\<rparr>) new)"
    by (simp add: comp_def)
  also have "\<dots> = map openreview_forum (map (new_paper now vid) ss)" by (simp only: assms)
  also have "\<dots> = map forum ss" by (simp add: comp_def new_paper_def)
  finally show ?thesis .
qed

lemma ingest_group_papers_effect:
  assumes "fetch gid = Inr subs"
    and "ingest_group ratio query fetch now ttl db gid nm yr with_arxiv = (db', calls, outcome)"
    and "distinct (map openreview_forum (papers db))"
  shows "(\<exists>new. papers db' = map (overwritten now subs) (papers db) @ new
            \<and> map (\<lambda>p. p\<lparr>p_id := 0\<rparr>) new
                = map (new_paper now (v_id (snd (ensure_venue now db gid nm yr))))
                    (filter (\<lambda>s. forum s \<notin> openreview_forum ` set (papers db)) subs))
       \<and> (distinct (map forum subs) \<longrightarrow>
            distinct (map openreview_forum (papers db'))
            \<and> openreview_forum ` set (papers db') = openreview_forum ` set (papers db) \<union> forum ` set subs)
       \<and> (\<forall>p \<in> set (papers db).
             p_id (overwritten now subs p) = p_id p
             \<and> venue_id (overwritten now subs p) = venue_id p
             \<and> openreview_forum (overwritten now subs p) = openreview_forum p
             \<and> openreview_note (overwritten now subs p) = openreview_note p
             \<and> (openreview_forum p \<notin> forum ` set subs \<longrightarrow> overwritten now subs p = p))
       \<and> (\<forall>p s. overwritten now subs p = overwrite_paper now s p \<longrightarrow>
             paper_title (overwritten now subs p) = title s
             \<and> last_refreshed (overwritten now subs p) = now)"
proof -
  obtain db1 v where ev: "ensure_venue now db gid nm yr = (db1, v)"
    by (cases "ensure_venue now db gid nm yr")
  note fr = ensure_venue_frame [OF ev]
  from assms(3) fr have d1: "distinct (map openreview_forum (papers db1))" by simp
  let ?ss = "filter (\<lambda>s. forum s \<notin> openreview_forum ` set (papers db)) subs"
  from upsert_phase_papers [OF d1, of now "v_id v" subs] fr obtain new where
    n1: "papers (upsert_phase now (v_id v) db1 subs) = map (overwritten now subs) (papers db) @ new"
    and n2: "map (\<lambda>p. p\<lparr>p_id := 0\<rparr>) new = map (new_paper now (v_id v)) ?ss"
    by auto
  from ingest_group_stores(1) [OF assms(1,2)] ev n1
  have p: "papers db' = map (overwritten now subs) (papers db) @ new" by simp
  have 1: "\<exists>new. papers db' = map (overwritten now subs) (papers db) @ new
            \<and> map (\<lambda>p. p\<lparr>p_id := 0\<rparr>) new
                = map (new_paper now (v_id (snd (ensure_venue now db gid nm yr)))) ?ss"
    using p n2 ev by auto
  have fs: "map openreview_forum (papers db') = map openreview_forum (papers db) @ map forum ?ss"
    unfolding p using new_rows_forums [OF n2] by (simp add: comp_def)
  have 2: "distinct (map forum subs) \<longrightarrow>
            distinct (map openreview_forum (papers db'))
            \<and> openreview_forum ` set (papers db') = openreview_forum ` set (papers db) \<union> forum ` set subs"
  proof
    assume ds: "distinct (map forum subs)"
    then have "distinct (map forum ?ss)" by (rule distinct_map_filter)
    moreover have "set (map openreview_forum (papers db)) \<inter> set (map forum ?ss) = {}"
    proof (rule ccontr)
      assume "set (map openreview_forum (papers db)) \<inter> set (map forum ?ss) \<noteq> {}"
      then obtain f where f1: "f \<in> set (map openreview_forum (papers db))"
        and f2: "f \<in> set (map forum ?ss)"
        by blast
      from f2 obtain s where s: "s \<in> set ?ss" "f = forum s" by auto
      from s(1) have "forum s \<notin> openreview_forum ` set (papers db)" by simp
      moreover from f1 have "f \<in> openreview_forum ` set (papers db)" by simp
      ultimately show False using s(2) by simp
    qed
    ultimately have a: "distinct (map openreview_forum (papers db'))"
      unfolding fs using assms(3) by simp
    have "set (map openreview_forum (papers db')) = openreview_forum ` set (papers db) \<union> forum ` set subs"
      unfolding fs by auto
    then have b: "openreview_forum ` set (papers db') = openreview_forum ` set (papers db) \<union> forum ` set subs"
      by simp
    from a b show "distinct (map openreview_forum (papers db'))
            \<and> openreview_forum ` set (papers db') = openreview_forum ` set (papers db) \<union> forum ` set subs"
      by (rule conjI)
  qed
  have 3: "\<forall>p \<in> set (papers db).
             p_id (overwritten now subs p) = p_id p
             \<and> venue_id (overwritten now subs p) = venue_id p
             \<and> openreview_forum (overwritten now subs p) = openreview_forum p
             \<and> openreview_note (overwritten now subs p) = openreview_note p
             \<and> (openreview_forum p \<notin> forum ` set subs \<longrightarrow> overwritten now subs p = p)"
    by (simp add: overwritten_keys overwritten_other)
  have 4: "\<forall>p s. overwritten now subs p = overwrite_paper now s p \<longrightarrow>
             paper_title (overwritten now subs p) = title s
             \<and> last_refreshed (overwritten now subs p) = now"
    by (simp add: overwrite_paper_def)
  from 1 2 3 4 show ?thesis by (intro conjI)
qed

lemma find_None_iff_filter: "(find P xs = None) = (filter P xs = [])"
  by (induction xs) auto

lemma ensure_venue_count:
  assumes "length (filter (\<lambda>v. group_id v = gid) (venues db)) \<le> 1"
    and "ensure_venue now db gid nm yr = (db1, v)"
  shows "length (filter (\<lambda>v. group_id v = gid) (venues db1)) = 1"
proof (cases "find (\<lambda>v. group_id v = gid) (venues db)")
  case None
  then have "filter (\<lambda>v. group_id v = gid) (venues db) = []" by (simp add: find_None_iff_filter)
  moreover from None assms(2) have
    "\<exists>v'. group_id v' = gid \<and> venues db1 = venues db @ [v']"
    by (auto simp: ensure_venue_def Let_def)
  ultimately show ?thesis by auto
next
  case (Some found)
  then have "filter (\<lambda>v. group_id v = gid) (venues db) \<noteq> []" 
    using find_None_iff_filter [of "\<lambda>v. group_id v = gid" "venues db"] by simp
  then have "length (filter (\<lambda>v. group_id v = gid) (venues db)) \<noteq> 0" by simp
  with assms(1) have "length (filter (\<lambda>v. group_id v = gid) (venues db)) = 1" by linarith
  moreover from Some assms(2) have "db1 = db" by (simp add: ensure_venue_def)
  ultimately show ?thesis by simp
qed

lemma distinct_filter_one:
  "distinct (map g xs) \<Longrightarrow> k \<in> g ` set xs \<Longrightarrow> length (filter (\<lambda>x. g x = k) xs) = 1"
proof (induction xs)
  case Nil
  then show ?case by simp
next
  case (Cons x xs)
  show ?case
  proof (cases "g x = k")
    case True
    with Cons.prems(1) have "k \<notin> g ` set xs" by simp
    then have "\<forall>y \<in> set xs. g y \<noteq> k" by blast
    then have "filter (\<lambda>x. g x = k) xs = []" by (simp add: filter_empty_conv)
    with True show ?thesis by simp
  next
    case False
    with Cons.prems have "k \<in> g ` set xs" "distinct (map g xs)" by auto
    with Cons.IH False show ?thesis by simp
  qed
qed

lemma overwrite_paper_carries:
  "carries s p \<Longrightarrow> overwrite_paper now s p = p\<lparr>last_refreshed := now\<rparr>"
  by (simp add: carries_def overwrite_paper_def)

lemma carries_overwrite: "carries s (overwrite_paper now s p)"
  by (simp add: carries_def overwrite_paper_def)

lemma carries_new:
  assumes "p\<lparr>p_id := 0\<rparr> = new_paper now vid s"
  shows "carries s p" and "openreview_forum p = forum s"
proof -
  have "paper_title (p\<lparr>p_id := 0\<rparr>) = title s" "paper_abstract (p\<lparr>p_id := 0\<rparr>) = abstract s"
    "paper_authors (p\<lparr>p_id := 0\<rparr>) = authors s"
    "paper_keywords (p\<lparr>p_id := 0\<rparr>) = py_join '', '' (keywords_list s)"
    "paper_decision (p\<lparr>p_id := 0\<rparr>) = decision s" "paper_avg_rating (p\<lparr>p_id := 0\<rparr>) = avg_rating s"
    "paper_num_reviews (p\<lparr>p_id := 0\<rparr>) = num_reviews s"
    "openreview_forum (p\<lparr>p_id := 0\<rparr>) = forum s"
    unfolding assms by (simp_all add: new_paper_def)
  then show "carries s p" and "openreview_forum p = forum s" by (simp_all add: carries_def)
qed

lemma find_Some_forum:
  "find (\<lambda>s. forum s = k) xs = Some s \<Longrightarrow> s \<in> set xs \<and> forum s = k"
  by (induction xs) (auto split: if_splits)

lemma map2_renumber_nth:
  "map (\<lambda>p. p\<lparr>p_id := 0\<rparr>) new = map f ss \<Longrightarrow> p \<in> set new \<Longrightarrow> \<exists>s \<in> set ss. p\<lparr>p_id := 0\<rparr> = f s"
proof -
  assume e: "map (\<lambda>p. p\<lparr>p_id := 0\<rparr>) new = map f ss" and p: "p \<in> set new"
  from p have "p\<lparr>p_id := 0\<rparr> \<in> set (map (\<lambda>p. p\<lparr>p_id := 0\<rparr>) new)" by simp
  then have "p\<lparr>p_id := 0\<rparr> \<in> set (map f ss)" by (simp only: e)
  then show ?thesis by auto
qed

text \<open>
  C1, as the code has it. The upsert is keyed by the forum id alone. When the store holds
  at most one Paper per forum id, an ingestion whose fetch succeeds leaves every Paper of
  the store in its place, with its key, venue, forum and note: a Paper whose forum is
  among the ingested ones, under whatever venue it is, is overwritten with the last
  summary of that forum (denormalized fields, and \<open>last_refreshed\<close> set to the instant
  of the call), and the others are untouched. The summaries whose forum the store did not
  hold are inserted behind, as new Papers of the ingested venue. When moreover the
  summaries have pairwise distinct forum ids, the store afterwards again holds at most
  one Paper per forum id, and exactly one for each forum id ingested.
\<close>

theorem ingest_group_upsert_by_forum:
  assumes "fetch gid = Inr subs"
    and "ingest_group ratio query fetch now ttl db gid nm yr with_arxiv = (db', calls, outcome)"
    and "distinct (map openreview_forum (papers db))"
  shows "(\<exists>new. papers db' = map (overwritten now subs) (papers db) @ new
            \<and> map (\<lambda>p. p\<lparr>p_id := 0\<rparr>) new
                = map (new_paper now (v_id (snd (ensure_venue now db gid nm yr))))
                    (filter (\<lambda>s. forum s \<notin> openreview_forum ` set (papers db)) subs))
       \<and> (distinct (map forum subs) \<longrightarrow>
            distinct (map openreview_forum (papers db'))
            \<and> openreview_forum ` set (papers db') = openreview_forum ` set (papers db) \<union> forum ` set subs)
       \<and> (\<forall>p \<in> set (papers db).
             p_id (overwritten now subs p) = p_id p
             \<and> venue_id (overwritten now subs p) = venue_id p
             \<and> openreview_forum (overwritten now subs p) = openreview_forum p
             \<and> openreview_note (overwritten now subs p) = openreview_note p
             \<and> (openreview_forum p \<notin> forum ` set subs \<longrightarrow> overwritten now subs p = p))
       \<and> (\<forall>p s. overwritten now subs p = overwrite_paper now s p \<longrightarrow>
             paper_title (overwritten now subs p) = title s
             \<and> last_refreshed (overwritten now subs p) = now)"
  using assms by (rule ingest_group_papers_effect)

theorem ingest_group_upsert_by_forum_witness:
  "ingest_group zero_ratio no_candidates
     (fetched [\<lparr>forum = ''F'', note_id = ''F'', title = ''New'', abstract = None, authors = ''A'',
                 keywords_list = [], decision = None, avg_rating = None, num_reviews = 0\<rparr>,
               \<lparr>forum = ''G'', note_id = ''G'', title = ''Next'', abstract = None, authors = ''B'',
                 keywords_list = [], decision = None, avg_rating = None, num_reviews = 0\<rparr>])
     100 arxiv_ttl_default
     \<lparr>venues = [\<lparr>v_id = 1, group_id = ''A/2024'', venue_name = ''A'', year = None, added_at = 0\<rparr>],
      papers = [\<lparr>p_id = 1, venue_id = 1, openreview_forum = ''F'', openreview_note = ''F'',
                 paper_title = ''Old'', paper_abstract = None, paper_authors = ''A'',
                 paper_keywords = [], paper_decision = None, paper_avg_rating = None,
                 paper_num_reviews = 0, last_refreshed = 0\<rparr>],
      arxiv_matches = []\<rparr> ''A/2024'' None None False
   = (\<lparr>venues = [\<lparr>v_id = 1, group_id = ''A/2024'', venue_name = ''A'', year = None, added_at = 0\<rparr>],
       papers = [\<lparr>p_id = 1, venue_id = 1, openreview_forum = ''F'', openreview_note = ''F'',
                  paper_title = ''New'', paper_abstract = None, paper_authors = ''A'',
                  paper_keywords = [], paper_decision = None, paper_avg_rating = None,
                  paper_num_reviews = 0, last_refreshed = 100\<rparr>,
                 \<lparr>p_id = 2, venue_id = 1, openreview_forum = ''G'', openreview_note = ''G'',
                  paper_title = ''Next'', paper_abstract = None, paper_authors = ''B'',
                  paper_keywords = [], paper_decision = None, paper_avg_rating = None,
                  paper_num_reviews = 0, last_refreshed = 100\<rparr>],
       arxiv_matches = []\<rparr>,
      [], Inr 2)
   \<and> distinct (map openreview_forum
        [\<lparr>p_id = 1, venue_id = 1, openreview_forum = ''F'', openreview_note = ''F'',
                  paper_title = ''New'', paper_abstract = None, paper_authors = ''A'',
                  paper_keywords = [], paper_decision = None, paper_avg_rating = None,
                  paper_num_reviews = 0, last_refreshed = 100\<rparr>,
                 \<lparr>p_id = 2, venue_id = 1, openreview_forum = ''G'', openreview_note = ''G'',
                  paper_title = ''Next'', paper_abstract = None, paper_authors = ''B'',
                  paper_keywords = [], paper_decision = None, paper_avg_rating = None,
                  paper_num_reviews = 0, last_refreshed = 100\<rparr>])"
proof -
  let ?subs = "[\<lparr>forum = ''F'', note_id = ''F'', title = ''New'', abstract = None, authors = ''A'',
                 keywords_list = [], decision = None, avg_rating = None, num_reviews = 0\<rparr>,
               \<lparr>forum = ''G'', note_id = ''G'', title = ''Next'', abstract = None, authors = ''B'',
                 keywords_list = [], decision = None, avg_rating = None, num_reviews = 0\<rparr>]
               :: (string, string option, rat) submission_summary list"
  let ?v = "\<lparr>v_id = 1, group_id = ''A/2024'', venue_name = ''A'', year = None, added_at = 0\<rparr>"
  let ?db = "\<lparr>venues = [?v],
      papers = [\<lparr>p_id = 1, venue_id = 1, openreview_forum = ''F'', openreview_note = ''F'',
                 paper_title = ''Old'', paper_abstract = None, paper_authors = ''A'',
                 paper_keywords = [], paper_decision = None, paper_avg_rating = None,
                 paper_num_reviews = 0, last_refreshed = 0\<rparr>],
      arxiv_matches = []\<rparr>"
  let ?ps' = "[\<lparr>p_id = 1, venue_id = 1, openreview_forum = ''F'', openreview_note = ''F'',
                  paper_title = ''New'', paper_abstract = None, paper_authors = ''A'',
                  paper_keywords = [], paper_decision = None, paper_avg_rating = None,
                  paper_num_reviews = 0, last_refreshed = 100\<rparr>,
                 \<lparr>p_id = 2, venue_id = 1, openreview_forum = ''G'', openreview_note = ''G'',
                  paper_title = ''Next'', paper_abstract = None, paper_authors = ''B'',
                  paper_keywords = [], paper_decision = None, paper_avg_rating = None,
                  paper_num_reviews = 0, last_refreshed = 100\<rparr>]"
  let ?db' = "\<lparr>venues = [?v], papers = ?ps', arxiv_matches = []\<rparr>"
  have f: "fetched ?subs ''A/2024'' = Inr ?subs" by (simp add: fetched_def)
  have run: "ingest_group zero_ratio no_candidates (fetched ?subs) 100 arxiv_ttl_default ?db
               ''A/2024'' None None False = (?db', [], Inr 2)"
    by code_simp
  have d: "distinct (map openreview_forum (papers ?db))" by simp
  have ds: "distinct (map forum ?subs)" by simp
  from ingest_group_upsert_by_forum [OF f run d] have
    "distinct (map forum ?subs) \<longrightarrow>
            distinct (map openreview_forum (papers ?db'))
            \<and> openreview_forum ` set (papers ?db') = openreview_forum ` set (papers ?db) \<union> forum ` set ?subs"
    by (elim conjE)
  from this [rule_format, OF ds, THEN conjunct1]
  have "distinct (map openreview_forum (papers ?db'))" .
  then have c: "distinct (map openreview_forum ?ps')" by (simp only: store.simps)
  show ?thesis by (rule conjI [OF run c])
qed

text \<open>
  C1 as stated fails: the store holds a Paper of forum \<open>F\<close> under the venue \<open>A/2024\<close>,
  and the ingestion of the venue \<open>B/2024\<close>, whose fetch returns a summary of forum \<open>F\<close>,
  overwrites that Paper of the other venue and inserts none under \<open>B/2024\<close>.
\<close>

theorem ingest_group_upsert_by_forum_counterexample:
  "ingest_group zero_ratio no_candidates
     (fetched [\<lparr>forum = ''F'', note_id = ''F'', title = ''New'', abstract = None, authors = ''A'',
                 keywords_list = [''k1'', ''k2''], decision = Some ''Accept'', avg_rating = Some 5,
                 num_reviews = 2\<rparr>])
     100 arxiv_ttl_default
     \<lparr>venues = [\<lparr>v_id = 1, group_id = ''A/2024'', venue_name = ''A'', year = None, added_at = 0\<rparr>,
                \<lparr>v_id = 2, group_id = ''B/2024'', venue_name = ''B'', year = None, added_at = 0\<rparr>],
      papers = [\<lparr>p_id = 1, venue_id = 1, openreview_forum = ''F'', openreview_note = ''F'',
                 paper_title = ''Old'', paper_abstract = None, paper_authors = ''A'',
                 paper_keywords = [], paper_decision = None, paper_avg_rating = None,
                 paper_num_reviews = 0, last_refreshed = 0\<rparr>],
      arxiv_matches = []\<rparr> ''B/2024'' None None False
   = (\<lparr>venues = [\<lparr>v_id = 1, group_id = ''A/2024'', venue_name = ''A'', year = None, added_at = 0\<rparr>,
                 \<lparr>v_id = 2, group_id = ''B/2024'', venue_name = ''B'', year = None, added_at = 0\<rparr>],
       papers = [\<lparr>p_id = 1, venue_id = 1, openreview_forum = ''F'', openreview_note = ''F'',
                  paper_title = ''New'', paper_abstract = None, paper_authors = ''A'',
                  paper_keywords = ''k1, k2'', paper_decision = Some ''Accept'',
                  paper_avg_rating = Some 5, paper_num_reviews = 2, last_refreshed = 100\<rparr>],
       arxiv_matches = []\<rparr>,
      [], Inr 1)"
  by code_simp


lemma overwritten_second:
  assumes ds: "distinct (map forum subs)"
    and p1: "papers db1 = map (overwritten now1 subs) ps0 @ new1"
    and n1: "map (\<lambda>p. p\<lparr>p_id := 0\<rparr>) new1 = map (new_paper now1 vid) ss1"
    and ss1: "set ss1 \<subseteq> set subs"
    and p: "p \<in> set (papers db1)"
  shows "overwritten now2 subs p
         = (if openreview_forum p \<in> forum ` set subs then p\<lparr>last_refreshed := now2\<rparr> else p)"
proof (cases "openreview_forum p \<in> forum ` set subs")
  case False
  then show ?thesis by (simp add: overwritten_other)
next
  case True
  then have "openreview_forum p \<in> forum ` set (rev subs)" by simp
  then have "find (\<lambda>s. forum s = openreview_forum p) (rev subs) \<noteq> None"
    by (simp add: find_None_forum)
  then obtain s where fs: "find (\<lambda>s. forum s = openreview_forum p) (rev subs) = Some s" by blast
  from find_Some_forum [OF fs] have s: "s \<in> set subs" "forum s = openreview_forum p" by simp_all
  have o2: "overwritten now2 subs p = overwrite_paper now2 s p" by (simp add: overwritten_def fs)
  have "carries s p"
  proof -
    from p p1 consider (old) "p \<in> set (map (overwritten now1 subs) ps0)" | (new) "p \<in> set new1"
      by auto
    then show ?thesis
    proof cases
      case old
      then obtain p0 where p0: "p = overwritten now1 subs p0" by auto
      then have "openreview_forum p = openreview_forum p0" by simp
      with fs have "find (\<lambda>s. forum s = openreview_forum p0) (rev subs) = Some s" by simp
      then have "overwritten now1 subs p0 = overwrite_paper now1 s p0" by (simp add: overwritten_def)
      with p0 show ?thesis by (simp add: carries_overwrite)
    next
      case new
      from map2_renumber_nth [OF n1 new] obtain s' where
        s': "s' \<in> set ss1" "p\<lparr>p_id := 0\<rparr> = new_paper now1 vid s'" by blast
      note c = carries_new [OF s'(2)]
      from ds have "inj_on forum (set subs)" by (simp add: distinct_map)
      moreover from s'(1) ss1 have "s' \<in> set subs" by blast
      moreover from c(2) s(2) have "forum s = forum s'" by simp
      ultimately have "s = s'" using s(1) by (auto dest: inj_onD)
      with c(1) show ?thesis by simp
    qed
  qed
  then have "overwrite_paper now2 s p = p\<lparr>last_refreshed := now2\<rparr>" by (rule overwrite_paper_carries)
  with o2 True show ?thesis by simp
qed

text \<open>
  Two ingestions of summaries with pairwise distinct forum ids. Let the store hold at
  most one Venue of the group and at most one Paper per forum id. After two ingestions
  of the group with the same summaries, whatever the outcome of their matching phases,
  the store holds exactly one Venue of the group and exactly one Paper for each forum id
  fetched; the second call sets \<open>last_refreshed\<close> of these Papers to its instant and
  changes no other column and no other Paper.
\<close>

lemma ingest_group_twice_distinct_forums:
  assumes f: "fetch gid = Inr subs"
    and d0: "distinct (map openreview_forum (papers db))"
    and ds: "distinct (map forum subs)"
    and v0: "length (filter (\<lambda>v. group_id v = gid) (venues db)) \<le> 1"
    and i1: "ingest_group ratio query fetch now1 ttl db gid nm yr with_arxiv = (db1, calls1, outcome1)"
    and i2: "ingest_group ratio' query' fetch now2 ttl' db1 gid nm' yr' with_arxiv' = (db2, calls2, outcome2)"
  shows "length (filter (\<lambda>v. group_id v = gid) (venues db2)) = 1
       \<and> (\<forall>s \<in> set subs. length (filter (\<lambda>p. openreview_forum p = forum s) (papers db2)) = 1)
       \<and> papers db2 = map (\<lambda>p. if openreview_forum p \<in> forum ` set subs
                                 then p\<lparr>last_refreshed := now2\<rparr> else p) (papers db1)"
proof -
  obtain dbA vA where eA: "ensure_venue now1 db gid nm yr = (dbA, vA)"
    by (cases "ensure_venue now1 db gid nm yr")
  obtain dbB vB where eB: "ensure_venue now2 db1 gid nm' yr' = (dbB, vB)"
    by (cases "ensure_venue now2 db1 gid nm' yr'")
  from ingest_group_stores(2) [OF f i1] eA have "venues db1 = venues dbA" by simp
  with ensure_venue_count [OF v0 eA] have c1: "length (filter (\<lambda>v. group_id v = gid) (venues db1)) = 1"
    by simp
  then have "length (filter (\<lambda>v. group_id v = gid) (venues db1)) \<le> 1" by simp
  from ensure_venue_count [OF this eB] have "length (filter (\<lambda>v. group_id v = gid) (venues dbB)) = 1" .
  moreover from ingest_group_stores(2) [OF f i2] eB have "venues db2 = venues dbB" by simp
  ultimately have venue: "length (filter (\<lambda>v. group_id v = gid) (venues db2)) = 1" by simp
  let ?ss1 = "filter (\<lambda>s. forum s \<notin> openreview_forum ` set (papers db)) subs"
  note e1 = ingest_group_papers_effect [OF f i1 d0]
  from e1 obtain new1 where
    p1: "papers db1 = map (overwritten now1 subs) (papers db) @ new1"
    and n1: "map (\<lambda>p. p\<lparr>p_id := 0\<rparr>) new1
               = map (new_paper now1 (v_id (snd (ensure_venue now1 db gid nm yr)))) ?ss1"
    by blast
  from e1 ds have dist1: "distinct (map openreview_forum (papers db1))"
    and fs1: "openreview_forum ` set (papers db1) = openreview_forum ` set (papers db) \<union> forum ` set subs"
    by blast+
  note e2 = ingest_group_papers_effect [OF f i2 dist1]
  let ?ss2 = "filter (\<lambda>s. forum s \<notin> openreview_forum ` set (papers db1)) subs"
  from e2 obtain new2 where
    p2: "papers db2 = map (overwritten now2 subs) (papers db1) @ new2"
    and n2: "map (\<lambda>p. p\<lparr>p_id := 0\<rparr>) new2
               = map (new_paper now2 (v_id (snd (ensure_venue now2 db1 gid nm' yr')))) ?ss2"
    by blast
  from e2 ds have dist2: "distinct (map openreview_forum (papers db2))"
    and fs2: "openreview_forum ` set (papers db2) = openreview_forum ` set (papers db1) \<union> forum ` set subs"
    by blast+
  have "?ss2 = []" unfolding fs1 by (simp add: filter_empty_conv)
  with n2 have "new2 = []" by simp
  with p2 have p2': "papers db2 = map (overwritten now2 subs) (papers db1)" by simp
  have "set ?ss1 \<subseteq> set subs" by auto
  with ds p1 n1 have
    "\<forall>p \<in> set (papers db1). overwritten now2 subs p
         = (if openreview_forum p \<in> forum ` set subs then p\<lparr>last_refreshed := now2\<rparr> else p)"
    by (intro ballI overwritten_second)
  then have papers: "papers db2 = map (\<lambda>p. if openreview_forum p \<in> forum ` set subs
                                 then p\<lparr>last_refreshed := now2\<rparr> else p) (papers db1)"
    unfolding p2' by (intro map_cong refl) simp
  have one: "\<forall>s \<in> set subs. length (filter (\<lambda>p. openreview_forum p = forum s) (papers db2)) = 1"
  proof
    fix s assume "s \<in> set subs"
    then have "forum s \<in> openreview_forum ` set (papers db2)" unfolding fs2 by simp
    with dist2 show "length (filter (\<lambda>p. openreview_forum p = forum s) (papers db2)) = 1"
      by (rule distinct_filter_one)
  qed
  from venue one papers show ?thesis by (intro conjI)
qed


text \<open>
  C2. Ingesting the same group twice with the same upstream data should leave exactly one
  Paper per distinct forum id. The code does not: here the two summaries of the fetch
  share the forum \<open>F\<close> under the notes \<open>A\<close> and \<open>B\<close>. The first ingestion into the empty
  store finds no Paper of that forum at either lookup, the Paper added for the first
  summary being still pending and not flushed at the second, and inserts two; the second
  ingestion finds the first of them at both lookups, overwrites it twice, and leaves two
  Papers for the one forum id.
\<close>

theorem ingest_group_twice_duplicate_forum:
  "ingest_group zero_ratio no_candidates
     (fetched [\<lparr>forum = ''F'', note_id = ''A'', title = ''T'', abstract = None, authors = ''A'',
                 keywords_list = [], decision = None, avg_rating = None, num_reviews = 0\<rparr>,
               \<lparr>forum = ''F'', note_id = ''B'', title = ''T'', abstract = None, authors = ''A'',
                 keywords_list = [], decision = None, avg_rating = None, num_reviews = 0\<rparr>])
     100 arxiv_ttl_default \<lparr>venues = [], papers = [], arxiv_matches = []\<rparr> ''V/2024'' None None False
   = (\<lparr>venues = [\<lparr>v_id = 1, group_id = ''V/2024'', venue_name = ''V'', year = None, added_at = 100\<rparr>],
       papers = [\<lparr>p_id = 1, venue_id = 1, openreview_forum = ''F'', openreview_note = ''A'',
                  paper_title = ''T'', paper_abstract = None, paper_authors = ''A'',
                  paper_keywords = [], paper_decision = None, paper_avg_rating = None,
                  paper_num_reviews = 0, last_refreshed = 100\<rparr>,
                 \<lparr>p_id = 2, venue_id = 1, openreview_forum = ''F'', openreview_note = ''B'',
                  paper_title = ''T'', paper_abstract = None, paper_authors = ''A'',
                  paper_keywords = [], paper_decision = None, paper_avg_rating = None,
                  paper_num_reviews = 0, last_refreshed = 100\<rparr>],
       arxiv_matches = []\<rparr>,
      [], Inr 2)
   \<and> ingest_group zero_ratio no_candidates
     (fetched [\<lparr>forum = ''F'', note_id = ''A'', title = ''T'', abstract = None, authors = ''A'',
                 keywords_list = [], decision = None, avg_rating = None, num_reviews = 0\<rparr>,
               \<lparr>forum = ''F'', note_id = ''B'', title = ''T'', abstract = None, authors = ''A'',
                 keywords_list = [], decision = None, avg_rating = None, num_reviews = 0\<rparr>])
     200 arxiv_ttl_default
     \<lparr>venues = [\<lparr>v_id = 1, group_id = ''V/2024'', venue_name = ''V'', year = None, added_at = 100\<rparr>],
       papers = [\<lparr>p_id = 1, venue_id = 1, openreview_forum = ''F'', openreview_note = ''A'',
                  paper_title = ''T'', paper_abstract = None, paper_authors = ''A'',
                  paper_keywords = [], paper_decision = None, paper_avg_rating = None,
                  paper_num_reviews = 0, last_refreshed = 100\<rparr>,
                 \<lparr>p_id = 2, venue_id = 1, openreview_forum = ''F'', openreview_note = ''B'',
                  paper_title = ''T'', paper_abstract = None, paper_authors = ''A'',
                  paper_keywords = [], paper_decision = None, paper_avg_rating = None,
                  paper_num_reviews = 0, last_refreshed = 100\<rparr>],
       arxiv_matches = []\<rparr> ''V/2024'' None None False
   = (\<lparr>venues = [\<lparr>v_id = 1, group_id = ''V/2024'', venue_name = ''V'', year = None, added_at = 100\<rparr>],
       papers = [\<lparr>p_id = 1, venue_id = 1, openreview_forum = ''F'', openreview_note = ''A'',
                  paper_title = ''T'', paper_abstract = None, paper_authors = ''A'',
                  paper_keywords = [], paper_decision = None, paper_avg_rating = None,
                  paper_num_reviews = 0, last_refreshed = 200\<rparr>,
                 \<lparr>p_id = 2, venue_id = 1, openreview_forum = ''F'', openreview_note = ''B'',
                  paper_title = ''T'', paper_abstract = None, paper_authors = ''A'',
                  paper_keywords = [], paper_decision = None, paper_avg_rating = None,
                  paper_num_reviews = 0, last_refreshed = 100\<rparr>],
       arxiv_matches = []\<rparr>,
      [], Inr 2)"
  by code_simp

section \<open>The phases of an ingestion\<close>

text \<open>
  The matching phase of an ingestion is \<open>match_phase\<close> on the store the upsert has left,
  whose matches are those the ingestion started with; the statements about \<open>match_phase\<close>
  are thus statements about every ingestion made with matching. An ingestion whose fetch
  fails changes nothing.
\<close>

lemma ingest_group_matching_phase:
  assumes "fetch gid = Inr subs"
    and "ingest_group ratio query fetch now ttl db gid nm yr True = (db', calls, outcome)"
  shows "\<exists>u. match_phase ratio query now ttl
               (upsert_phase now (v_id (snd (ensure_venue now db gid nm yr)))
                  (fst (ensure_venue now db gid nm yr)) subs)
               (v_id (snd (ensure_venue now db gid nm yr))) = (db', calls, u)
             \<and> outcome = map_sum id (\<lambda>_. length subs) u"
    and "arxiv_matches (upsert_phase now (v_id (snd (ensure_venue now db gid nm yr)))
                          (fst (ensure_venue now db gid nm yr)) subs) = arxiv_matches db"
proof -
  obtain db1 v where ev: "ensure_venue now db gid nm yr = (db1, v)"
    by (cases "ensure_venue now db gid nm yr")
  let ?db2 = "upsert_phase now (v_id v) db1 subs"
  obtain db3 calls3 o3 where mp: "match_phase ratio query now ttl ?db2 (v_id v) = (db3, calls3, o3)"
    by (cases "match_phase ratio query now ttl ?db2 (v_id v)") auto
  from assms ev mp have "db' = db3 \<and> calls = calls3 \<and> outcome = map_sum id (\<lambda>_. length subs) o3"
    by (cases o3) (simp_all add: ingest_group_def Let_def)
  with mp ev show "\<exists>u. match_phase ratio query now ttl
               (upsert_phase now (v_id (snd (ensure_venue now db gid nm yr)))
                  (fst (ensure_venue now db gid nm yr)) subs)
               (v_id (snd (ensure_venue now db gid nm yr))) = (db', calls, u)
             \<and> outcome = map_sum id (\<lambda>_. length subs) u"
    by auto
  from ev ensure_venue_frame(2) [OF ev]
  show "arxiv_matches (upsert_phase now (v_id (snd (ensure_venue now db gid nm yr)))
                          (fst (ensure_venue now db gid nm yr)) subs) = arxiv_matches db"
    by (simp add: upsert_phase_frame)
qed

lemma ingest_group_fetch_error:
  "fetch gid = Inl e \<Longrightarrow>
   ingest_group ratio query fetch now ttl db gid nm yr with_arxiv = (db, [], Inl e)"
  by (simp add: ingest_group_def)

end
